theory Spec2Isabelle
  imports Main "HOL-Library.Sublist"
begin

section \<open>LIA compiler: lexer, parser and lowering to Scratch blocks\<close>

text \<open>
  A shallow embedding of \<^verbatim>\<open>src/lia_compiler.js\<close>: \<^verbatim>\<open>tokenize\<close>, the recursive-descent
  \<^verbatim>\<open>Parser\<close> and \<^verbatim>\<open>generateProject\<close> with its inner functions \<^verbatim>\<open>addBlock\<close>,
  \<^verbatim>\<open>compileStatement\<close> and \<^verbatim>\<open>compileStatements\<close>.

  Conventions of the model.
  \<^item> A JavaScript string is a \<open>string\<close>; a \<open>char\<close> stands for one code unit in the
    range 0..255. Inputs with code units above 255 are outside the model.
  \<^item> A JavaScript number that comes from a numeric literal of the lexer
    (\<^verbatim>\<open>[0-9]+(?:\.[0-9]+)?\<close>) is the exact decimal it denotes, kept as a mantissa and
    a count of decimal places with no trailing zero (\<open>Decimal 15 1\<close> is 1.5). The
    rounding of \<^verbatim>\<open>Number\<close> to a double is not modelled; integers below \<open>2^53\<close> are
    exact in both.
  \<^item> Every \<^verbatim>\<open>throw\<close> is a value \<open>Inl e\<close> of the type \<open>error\<close>; reading a property
    of \<^verbatim>\<open>undefined\<close> is \<open>TypeError\<close>.
\<close>

subsection \<open>Values\<close>

text \<open>
  A number is kept as the decimal fraction of its literal: \<open>Decimal m e\<close> is
  \<open>m / 10 ^ e\<close>, with no trailing zero in \<open>m\<close> when \<open>e > 0\<close> (\<open>normal\<close>). The source
  holds an IEEE double instead. The two agree on the literals of at most 15
  significant digits whose value is 0 or lies between \<open>10 ^ -300\<close> and \<open>10 ^ 21\<close>:
  a double keeps these apart and prints them back digit for digit. Any other
  literal is rounded to the nearest double by the source and kept exactly here,
  so that on such a literal the value, its truthiness, its text and its equality
  with another number need not be those of the source.
\<close>

datatype number = Decimal nat nat

fun normal :: "nat \<Rightarrow> nat \<Rightarrow> number" where
  "normal m 0 = Decimal m 0"
| "normal m (Suc e) = (if m mod 10 = 0 then normal (m div 10) e else Decimal m (Suc e))"

abbreviation num :: "nat \<Rightarrow> number" where
  "num n \<equiv> Decimal n 0"

datatype jsvalue = Undefined | Null | Num number | Str string | Arr "jsvalue list"

text \<open>JavaScript truthiness, as used by \<^verbatim>\<open>a || b\<close>, \<^verbatim>\<open>if (x)\<close> and \<^verbatim>\<open>!x\<close>.\<close>

fun truthy :: "jsvalue \<Rightarrow> bool" where
  "truthy Undefined = False"
| "truthy Null = False"
| "truthy (Num (Decimal m e)) = (m \<noteq> 0)"
| "truthy (Str s) = (s \<noteq> [])"
| "truthy (Arr vs) = True"

definition or_js :: "jsvalue \<Rightarrow> jsvalue \<Rightarrow> jsvalue" where
  "or_js a b = (if truthy a then a else b)"

subsection \<open>Character classes of the lexer's regular expression\<close>

definition is_space :: "char \<Rightarrow> bool" where
  "is_space c \<longleftrightarrow> c \<in> set [CHR 0x09, CHR 0x0A, CHR 0x0B, CHR 0x0C, CHR 0x0D, CHR 0x20, CHR 0xA0]"

definition is_digit :: "char \<Rightarrow> bool" where
  "is_digit c \<longleftrightarrow> (48::nat) \<le> of_char c \<and> of_char c \<le> (57::nat)"

definition is_ident_start :: "char \<Rightarrow> bool" where
  "is_ident_start c \<longleftrightarrow>
     ((65::nat) \<le> of_char c \<and> of_char c \<le> (90::nat)) \<or>
     ((97::nat) \<le> of_char c \<and> of_char c \<le> (122::nat)) \<or> c = CHR ''_''"

definition is_ident_char :: "char \<Rightarrow> bool" where
  "is_ident_char c \<longleftrightarrow> is_ident_start c \<or> is_digit c \<or> c = CHR ''.'' \<or> c = CHR 0x22"

subsection \<open>Tokens\<close>

datatype ttype = punct | ident | string | number | eof

datatype token = Token (ttype: ttype) (tvalue: jsvalue)

datatype error =
    UnexpectedTokenAt nat string
  | ExpectedGot ttype jsvalue token
  | UnexpectedTokenInStatement token
  | UnclosedBlock
  | ExpectedKey
  | ExpectedString
  | UnknownEvent token
  | ExpectedNumberInRepeat
  | UnknownAwaitForm
  | UnexpectedArgToken token
  | ExpectedNumberInFor
  | ExpectedSemicolonAfter jsvalue
  | UnhandledStmtType string
  | TypeError

subsection \<open>Lexer\<close>

text \<open>
  \<^verbatim>\<open>Number(m[4])\<close> on a lexeme \<^verbatim>\<open>digits\<close> or \<^verbatim>\<open>digits.digits\<close>: the exact decimal of the
  lexeme, which is the double of the source for a lexeme of at most 15
  significant digits (see the remark on \<open>number\<close>).
\<close>

definition digits_value :: "string \<Rightarrow> nat" where
  "digits_value s = foldl (\<lambda>n c. 10 * n + (of_char c - 48)) 0 s"

definition Number :: "string \<Rightarrow> number" where
  "Number s =
     (let ip = takeWhile (\<lambda>c. c \<noteq> CHR ''.'') s;
          fp = drop (Suc (length ip)) s
      in normal (digits_value (ip @ fp)) (length fp))"

text \<open>
  The alternation of group 1, in the order of the source:
  \<^verbatim>\<open>=>|>=|<=|==|!=|\{|\}|\(|\)|;|,|\.|\+|\-|\*|\/|>=|<=|>|<|=\<close>.
\<close>

definition puncts :: "string list" where
  "puncts = [''=>'', ''>='', ''<='', ''=='', ''!='', ''{'', ''}'', ''('', '')'', '';'', '','',
             ''.'', ''+'', ''-'', ''*'', ''/'', ''>='', ''<='', ''>'', ''<'', ''='']"

definition match_punct :: "string \<Rightarrow> string option" where
  "match_punct rest = find (\<lambda>p. prefix p rest) puncts"

text \<open>Group 2, \<^verbatim>\<open>[A-Za-z_][A-Za-z0-9_\.\"]*\<close>.\<close>

definition match_ident :: "string \<Rightarrow> string option" where
  "match_ident rest =
     (case rest of
        [] \<Rightarrow> None
      | c # cs \<Rightarrow> if is_ident_start c then Some (c # takeWhile is_ident_char cs) else None)"

text \<open>Group 3, \<^verbatim>\<open>\"[^\"]*\"\<close>: the lexeme with both quotes.\<close>

definition match_string :: "string \<Rightarrow> string option" where
  "match_string rest =
     (case rest of
        [] \<Rightarrow> None
      | c # cs \<Rightarrow>
          if c = CHR 0x22 \<and> CHR 0x22 \<in> set cs
          then Some (c # takeWhile (\<lambda>d. d \<noteq> CHR 0x22) cs @ [CHR 0x22])
          else None)"

text \<open>Group 4, \<^verbatim>\<open>[0-9]+(?:\.[0-9]+)?\<close>.\<close>

definition match_number :: "string \<Rightarrow> string option" where
  "match_number rest =
     (let ip = takeWhile is_digit rest; r1 = drop (length ip) rest
      in if ip = [] then None
         else (case r1 of
                 [] \<Rightarrow> Some ip
               | c # r2 \<Rightarrow>
                   (let fp = takeWhile is_digit r2
                    in if c = CHR ''.'' \<and> fp \<noteq> [] then Some (ip @ c # fp) else Some ip)))"

text \<open>
  One sticky \<^verbatim>\<open>re.exec(input)\<close> with \<^verbatim>\<open>lastIndex = pos\<close>. Each of the four alternatives
  is \<^verbatim>\<open>\s*(group)\s*\<close>. Both \<^verbatim>\<open>\s*\<close> are greedy and no group starts with a white-space
  character, so backtracking into the leading \<^verbatim>\<open>\s*\<close> never finds a match that the
  longest run of white space misses. The result is the number of the group that
  matched, its text, and the new \<^verbatim>\<open>lastIndex\<close>; \<open>None\<close> is \<^verbatim>\<open>null\<close>.
\<close>

definition skip_space :: "string \<Rightarrow> nat \<Rightarrow> nat" where
  "skip_space input i = i + length (takeWhile is_space (drop i input))"

definition re_exec :: "string \<Rightarrow> nat \<Rightarrow> (nat \<times> string \<times> nat) option" where
  "re_exec input pos =
     (let i = skip_space input pos; rest = drop i input
      in case match_punct rest of
           Some m \<Rightarrow> Some (1, m, skip_space input (i + length m))
         | None \<Rightarrow>
        (case match_ident rest of
           Some m \<Rightarrow> Some (2, m, skip_space input (i + length m))
         | None \<Rightarrow>
        (case match_string rest of
           Some m \<Rightarrow> Some (3, m, skip_space input (i + length m))
         | None \<Rightarrow>
        (case match_number rest of
           Some m \<Rightarrow> Some (4, m, skip_space input (i + length m))
         | None \<Rightarrow> None))))"

text \<open>The token pushed for a match: \<^verbatim>\<open>m[3].slice(1, -1)\<close> drops the two quotes.\<close>

definition token_of :: "nat \<Rightarrow> string \<Rightarrow> token" where
  "token_of g m =
     (if g = 1 then Token punct (Str m)
      else if g = 2 then Token ident (Str m)
      else if g = 3 then Token string (Str (butlast (tl m)))
      else Token number (Num (Number m)))"

definition slice :: "string \<Rightarrow> nat \<Rightarrow> nat \<Rightarrow> string" where
  "slice s a b = take (b - a) (drop a s)"

lemma match_punct_length: "match_punct rest = Some m \<Longrightarrow> 0 < length m"
  by (auto simp: match_punct_def puncts_def split: if_splits)

lemma match_ident_length: "match_ident rest = Some m \<Longrightarrow> 0 < length m"
  by (auto simp: match_ident_def split: list.splits if_splits)

lemma match_string_length: "match_string rest = Some m \<Longrightarrow> 0 < length m"
  by (auto simp: match_string_def split: list.splits if_splits)

lemma match_number_length: "match_number rest = Some m \<Longrightarrow> 0 < length m"
  by (auto simp: match_number_def Let_def split: list.splits if_splits)

lemma skip_space_ge: "i \<le> skip_space input i"
  by (simp add: skip_space_def)

lemma re_exec_advances:
  assumes "re_exec input pos = Some (g, m, lastIndex)"
  shows "pos < lastIndex"
proof -
  have step: "pos < skip_space input (skip_space input pos + length t)"
    if "0 < length t" for t :: string
    using that skip_space_ge [of pos input]
      skip_space_ge [of "skip_space input pos + length t" input] by linarith
  show ?thesis
    using assms
    by (auto simp: re_exec_def Let_def split: option.splits
        dest!: match_punct_length match_ident_length match_string_length match_number_length
        intro!: step)
qed

function tokenize_loop :: "string \<Rightarrow> nat \<Rightarrow> token list \<Rightarrow> error + token list" where
  "tokenize_loop input pos tokens =
     (if pos < length input then
        (case re_exec input pos of
           None \<Rightarrow>
             (let ch = input ! pos
              in if ch = CHR 0x0A \<or> ch = CHR 0x0D \<or> ch = CHR 0x09 \<or> ch = CHR 0x20
                 then tokenize_loop input (pos + 1) tokens
                 else Inl (UnexpectedTokenAt pos (slice input pos (pos + 20))))
         | Some (g, m, lastIndex) \<Rightarrow> tokenize_loop input lastIndex (tokens @ [token_of g m]))
      else Inr (tokens @ [Token eof Undefined]))"
  by pat_completeness auto
termination
  by (relation "measure (\<lambda>(input, pos, tokens). length input - pos)")
    (auto dest: re_exec_advances)

declare tokenize_loop.simps [simp del]

definition tokenize :: "string \<Rightarrow> error + token list" where
  "tokenize input = tokenize_loop input 0 []"

text \<open>
  The values that \<^verbatim>\<open>pos\<close> takes at the head of the loop of \<^verbatim>\<open>tokenize\<close>, from \<open>pos\<close>
  on: the positions at which the loop tries to start a token.
\<close>

function loop_positions :: "string \<Rightarrow> nat \<Rightarrow> nat list" where
  "loop_positions input pos =
     (if pos < length input then
        pos #
        (case re_exec input pos of
           None \<Rightarrow>
             (let ch = input ! pos
              in if ch = CHR 0x0A \<or> ch = CHR 0x0D \<or> ch = CHR 0x09 \<or> ch = CHR 0x20
                 then loop_positions input (pos + 1)
                 else [])
         | Some (g, m, lastIndex) \<Rightarrow> loop_positions input lastIndex)
      else [])"
  by pat_completeness auto
termination
  by (relation "measure (\<lambda>(input, pos). length input - pos)")
    (auto dest: re_exec_advances)

declare loop_positions.simps [simp del]

subsection \<open>Program tree\<close>

text \<open>
  The nodes the parser builds. A field holds the \<^verbatim>\<open>value\<close> of the token it was read
  from; \<open>Call name args for\<close> has \<open>for = Undefined\<close> when the statement has no
  \<^verbatim>\<open>for(n)\<close> suffix, and \<open>If_stmt\<close> (the node \<^verbatim>\<open>If\<close>) has \<open>alternate = None\<close> for \<^verbatim>\<open>null\<close>.
\<close>

datatype event = Start | Key jsvalue | Click | Backdrop jsvalue

datatype stmt =
    Event event
  | Repeat jsvalue "stmt list"
  | LoopStatement "stmt list"
  | If_stmt string "stmt list" "stmt list option"
  | AwaitUntil string
  | Call jsvalue "jsvalue list" jsvalue
  | Empty

datatype program = Program "stmt list"

subsection \<open>Text of a value, for \<^verbatim>\<open>Array.prototype.join\<close>\<close>

text \<open>
  \<open>number_text\<close> writes a number in plain decimal notation, as
  \<^verbatim>\<open>Number.prototype.toString\<close> does for a double from \<open>10 ^ -6\<close> up to, but not
  including, \<open>10 ^ 21\<close>, and for 0. Outside this range the source prints an exponent
  (\<^verbatim>\<open>1e-7\<close>, \<^verbatim>\<open>1e+21\<close>) and \<open>number_text\<close> does not follow it; the text of a number
  only enters the condition strings of \<^verbatim>\<open>if\<close> and \<^verbatim>\<open>await until\<close>.
\<close>

fun nat_digits :: "nat \<Rightarrow> string" where
  "nat_digits n =
     (if n < 10 then [char_of (48 + n)] else nat_digits (n div 10) @ [char_of (48 + n mod 10)])"

declare nat_digits.simps [simp del]

fun number_text :: "number \<Rightarrow> string" where
  "number_text (Decimal m e) =
     (if e = 0 then nat_digits m
      else (let fp = nat_digits (m mod 10 ^ e)
            in nat_digits (m div 10 ^ e) @ ''.'' @ replicate (e - length fp) (CHR ''0'') @ fp))"

fun join :: "string \<Rightarrow> string list \<Rightarrow> string" where
  "join sep [] = []"
| "join sep [x] = x"
| "join sep (x # y # ys) = x @ sep @ join sep (y # ys)"

fun join_text :: "jsvalue \<Rightarrow> string" where
  "join_text Undefined = []"
| "join_text Null = []"
| "join_text (Num n) = number_text n"
| "join_text (Str s) = s"
| "join_text (Arr vs) = join '','' (map join_text vs)"

subsection \<open>Parser\<close>

text \<open>
  The parser object is its cursor: \<^verbatim>\<open>this.tokens\<close> never changes, so the state is
  the list of the tokens from \<^verbatim>\<open>this.pos\<close> on. \<^verbatim>\<open>peek()\<close> past the end is
  \<^verbatim>\<open>undefined\<close> (\<open>None\<close>), and reading \<^verbatim>\<open>.type\<close> or \<^verbatim>\<open>.value\<close> of it throws a
  \<open>TypeError\<close>. The result of a parsing function is the error thrown, or the value
  returned with the cursor after it.
\<close>

type_synonym 'a presult = "error + 'a \<times> token list"

definition seq :: "'a presult \<Rightarrow> ('a \<Rightarrow> token list \<Rightarrow> 'b presult) \<Rightarrow> 'b presult" where
  "seq r f = (case r of Inl e \<Rightarrow> Inl e | Inr (x, ts) \<Rightarrow> f x ts)"

definition peek :: "token list \<Rightarrow> token option" where
  "peek ts = (case ts of [] \<Rightarrow> None | t # _ \<Rightarrow> Some t)"

definition next_token :: "token list \<Rightarrow> token option \<times> token list" where
  "next_token ts = (case ts of [] \<Rightarrow> (None, []) | t # rest \<Rightarrow> (Some t, rest))"

text \<open>\<^verbatim>\<open>this.peek().type === type && this.peek().value === val\<close>.\<close>

definition peek_is :: "token list \<Rightarrow> ttype \<Rightarrow> jsvalue \<Rightarrow> error + bool" where
  "peek_is ts type val =
     (case peek ts of None \<Rightarrow> Inl TypeError | Some t \<Rightarrow> Inr (ttype t = type \<and> tvalue t = val))"

definition expect :: "ttype \<Rightarrow> jsvalue \<Rightarrow> token list \<Rightarrow> token presult" where
  "expect type val ts =
     (case peek ts of
        None \<Rightarrow> Inl TypeError
      | Some t \<Rightarrow>
          if ttype t \<noteq> type \<or> (val \<noteq> Undefined \<and> tvalue t \<noteq> val)
          then Inl (ExpectedGot type val t)
          else Inr (t, snd (next_token ts)))"

text \<open>\<^verbatim>\<open>const t = this.next()\<close> followed by a read of \<^verbatim>\<open>t.type\<close>.\<close>

definition next_defined :: "token list \<Rightarrow> token presult" where
  "next_defined ts =
     (case next_token ts of (None, _) \<Rightarrow> Inl TypeError | (Some t, rest) \<Rightarrow> Inr (t, rest))"

definition parseEvent :: "token list \<Rightarrow> stmt presult" where
  "parseEvent ts =
     seq (expect ident (Str ''on'') ts) (\<lambda>_ ts.
     seq (next_defined ts) (\<lambda>t ts.
       if ttype t = ident \<and> tvalue t = Str ''start'' then
         seq (expect punct (Str '';'') ts) (\<lambda>_ ts. Inr (Event Start, ts))
       else if ttype t = ident \<and> tvalue t = Str ''key'' then
         seq (expect punct (Str ''('') ts) (\<lambda>_ ts.
         seq (next_defined ts) (\<lambda>key ts.
           if ttype key \<noteq> ident \<and> ttype key \<noteq> string then Inl ExpectedKey
           else
             seq (expect punct (Str '')'') ts) (\<lambda>_ ts.
             seq (expect punct (Str '';'') ts) (\<lambda>_ ts. Inr (Event (Key (tvalue key)), ts)))))
       else if ttype t = ident \<and> tvalue t = Str ''click'' then
         seq (expect punct (Str '';'') ts) (\<lambda>_ ts. Inr (Event Click, ts))
       else if ttype t = ident \<and> tvalue t = Str ''backdrop'' then
         seq (expect punct (Str ''('') ts) (\<lambda>_ ts.
         seq (next_defined ts) (\<lambda>name ts.
           if ttype name \<noteq> string \<and> ttype name \<noteq> ident then Inl ExpectedString
           else
             seq (expect punct (Str '')'') ts) (\<lambda>_ ts.
             seq (expect punct (Str '';'') ts) (\<lambda>_ ts.
               Inr (Event (Backdrop (tvalue name)), ts)))))
       else Inl (UnknownEvent t)))"

text \<open>
  \<^verbatim>\<open>while (!(this.peek().type === 'punct' && this.peek().value === ')')) condTokens.push(this.next())\<close>,
  the loop of \<^verbatim>\<open>parseIf\<close> and \<^verbatim>\<open>parseAwait\<close>. Nothing stops it at the end-of-input
  token: it consumes that token too, and the next \<^verbatim>\<open>peek()\<close> is \<^verbatim>\<open>undefined\<close>.
\<close>

fun cond_loop :: "token list \<Rightarrow> token list \<Rightarrow> (token list) presult" where
  "cond_loop [] condTokens = Inl TypeError"
| "cond_loop (t # ts) condTokens =
     (if ttype t = punct \<and> tvalue t = Str '')'' then Inr (condTokens, t # ts)
      else cond_loop ts (condTokens @ [t]))"

definition condition_text :: "token list \<Rightarrow> string" where
  "condition_text condTokens = join '' '' (map (\<lambda>t. join_text (tvalue t)) condTokens)"

definition parseAwait :: "token list \<Rightarrow> stmt presult" where
  "parseAwait ts =
     seq (expect ident (Str ''await'') ts) (\<lambda>_ ts.
       case peek_is ts ident (Str ''until'') of
         Inl e \<Rightarrow> Inl e
       | Inr True \<Rightarrow>
           seq (expect punct (Str ''('') (snd (next_token ts))) (\<lambda>_ ts.
           seq (cond_loop ts []) (\<lambda>condTokens ts.
           seq (expect punct (Str '')'') ts) (\<lambda>_ ts.
           seq (expect punct (Str '';'') ts) (\<lambda>_ ts.
             Inr (AwaitUntil (condition_text condTokens), ts)))))
       | Inr False \<Rightarrow> Inl UnknownAwaitForm)"

text \<open>The argument loop of \<^verbatim>\<open>parseSimple\<close>; a comma after an argument is skipped when there is one.\<close>

fun args_loop :: "token list \<Rightarrow> jsvalue list \<Rightarrow> (jsvalue list) presult" where
  "args_loop [] args = Inl TypeError"
| "args_loop (t # ts) args =
     (if ttype t = punct \<and> tvalue t = Str '')'' then Inr (args, t # ts)
      else if ttype t = number \<or> ttype t = string \<or> ttype t = ident then
        (case ts of
           [] \<Rightarrow> Inl TypeError
         | u # us \<Rightarrow>
             if ttype u = punct \<and> tvalue u = Str '','' then args_loop us (args @ [tvalue t])
             else args_loop (u # us) (args @ [tvalue t]))
      else Inl (UnexpectedArgToken t))"

definition parseSimple :: "token list \<Rightarrow> stmt presult" where
  "parseSimple ts =
     seq (next_defined ts) (\<lambda>nameToken ts.
     let name = tvalue nameToken in
     seq (case peek_is ts punct (Str ''('') of
            Inl e \<Rightarrow> Inl e
          | Inr True \<Rightarrow>
              seq (args_loop (snd (next_token ts)) []) (\<lambda>args ts.
              seq (expect punct (Str '')'') ts) (\<lambda>_ ts. Inr (args, ts)))
          | Inr False \<Rightarrow> Inr ([], ts)) (\<lambda>args ts.
     seq (case peek_is ts ident (Str ''for'') of
            Inl e \<Rightarrow> Inl e
          | Inr True \<Rightarrow>
              seq (expect punct (Str ''('') (snd (next_token ts))) (\<lambda>_ ts.
              seq (next_defined ts) (\<lambda>n ts.
                if ttype n \<noteq> number then Inl ExpectedNumberInFor
                else seq (expect punct (Str '')'') ts) (\<lambda>_ ts. Inr (tvalue n, ts))))
          | Inr False \<Rightarrow> Inr (Undefined, ts)) (\<lambda>for ts.
     case peek_is ts punct (Str '';'') of
       Inl e \<Rightarrow> Inl e
     | Inr True \<Rightarrow> Inr (Call name args for, snd (next_token ts))
     | Inr False \<Rightarrow> Inl (ExpectedSemicolonAfter name))))"

text \<open>
  The part of \<^verbatim>\<open>parseRepeat\<close> before the body, \<^verbatim>\<open>repeat ( number ) {\<close>, and the part of
  \<^verbatim>\<open>parseIf\<close> before the consequent, \<^verbatim>\<open>if ( ... ) {\<close>.
\<close>

definition repeat_head :: "token list \<Rightarrow> jsvalue presult" where
  "repeat_head ts =
     seq (expect ident (Str ''repeat'') ts) (\<lambda>_ ts.
     seq (expect punct (Str ''('') ts) (\<lambda>_ ts.
     seq (next_defined ts) (\<lambda>n ts.
       if ttype n \<noteq> number then Inl ExpectedNumberInRepeat
       else
         seq (expect punct (Str '')'') ts) (\<lambda>_ ts.
         seq (expect punct (Str ''{'') ts) (\<lambda>_ ts. Inr (tvalue n, ts))))))"

definition if_head :: "token list \<Rightarrow> (token list) presult" where
  "if_head ts =
     seq (expect ident (Str ''if'') ts) (\<lambda>_ ts.
     seq (expect punct (Str ''('') ts) (\<lambda>_ ts.
     seq (cond_loop ts []) (\<lambda>condTokens ts.
     seq (expect punct (Str '')'') ts) (\<lambda>_ ts.
     seq (expect punct (Str ''{'') ts) (\<lambda>_ ts. Inr (condTokens, ts))))))"

text \<open>
  The mutually recursive functions take fuel, one unit for each call: \<open>None\<close> is
  "out of fuel", never a result of the source. \<open>parseBlock\<close> and \<open>parseProgram\<close> are
  the \<^verbatim>\<open>while\<close> loops of the source with the list built so far as an argument
  (\<^verbatim>\<open>stmts\<close>, \<^verbatim>\<open>body\<close>); the source starts each with the empty list.
\<close>

definition seqf ::
  "'a presult option \<Rightarrow> ('a \<Rightarrow> token list \<Rightarrow> 'b presult option) \<Rightarrow> 'b presult option" where
  "seqf r f =
     (case r of None \<Rightarrow> None | Some (Inl e) \<Rightarrow> Some (Inl e) | Some (Inr (x, ts)) \<Rightarrow> f x ts)"

fun parseStatement :: "nat \<Rightarrow> token list \<Rightarrow> stmt presult option"
  and parseBlock :: "nat \<Rightarrow> token list \<Rightarrow> stmt list \<Rightarrow> (stmt list) presult option"
  and parseRepeat :: "nat \<Rightarrow> token list \<Rightarrow> stmt presult option"
  and parseIf :: "nat \<Rightarrow> token list \<Rightarrow> stmt presult option"
where
  "parseStatement 0 ts = None"
| "parseStatement (Suc k) ts =
     (case peek ts of
        None \<Rightarrow> Some (Inl TypeError)
      | Some t \<Rightarrow>
          if ttype t = ident then
            (let val = tvalue t in
             if val = Str ''on'' then Some (parseEvent ts)
             else if val = Str ''repeat'' then parseRepeat k ts
             else if val = Str ''loop'' then
               seqf (Some (expect punct (Str ''{'') (snd (next_token ts)))) (\<lambda>_ ts.
               seqf (parseBlock k ts []) (\<lambda>body ts. Some (Inr (LoopStatement body, ts))))
             else if val = Str ''if'' then parseIf k ts
             else if val = Str ''await'' then Some (parseAwait ts)
             else Some (parseSimple ts))
          else if ttype t = punct \<and> tvalue t = Str '';'' then Some (Inr (Empty, snd (next_token ts)))
          else Some (Inl (UnexpectedTokenInStatement t)))"
| "parseBlock 0 ts stmts = None"
| "parseBlock (Suc k) ts stmts =
     (case peek ts of
        None \<Rightarrow> Some (Inl TypeError)
      | Some t \<Rightarrow>
          if ttype t = punct \<and> tvalue t = Str ''}'' then
            seqf (Some (expect punct (Str ''}'') ts)) (\<lambda>_ ts. Some (Inr (stmts, ts)))
          else if ttype t = eof then Some (Inl UnclosedBlock)
          else seqf (parseStatement k ts) (\<lambda>s ts. parseBlock k ts (stmts @ [s])))"
| "parseRepeat 0 ts = None"
| "parseRepeat (Suc k) ts =
     seqf (Some (repeat_head ts)) (\<lambda>count ts.
     seqf (parseBlock k ts []) (\<lambda>body ts. Some (Inr (Repeat count body, ts))))"
| "parseIf 0 ts = None"
| "parseIf (Suc k) ts =
     seqf (Some (if_head ts)) (\<lambda>condTokens ts.
     seqf (parseBlock k ts []) (\<lambda>consequent ts.
       case peek_is ts ident (Str ''else'') of
         Inl e \<Rightarrow> Some (Inl e)
       | Inr True \<Rightarrow>
           seqf (Some (expect punct (Str ''{'') (snd (next_token ts)))) (\<lambda>_ ts.
           seqf (parseBlock k ts []) (\<lambda>alternate ts.
             Some (Inr (If_stmt (condition_text condTokens) consequent (Some alternate), ts))))
       | Inr False \<Rightarrow> Some (Inr (If_stmt (condition_text condTokens) consequent None, ts))))"

fun parseProgram :: "nat \<Rightarrow> token list \<Rightarrow> stmt list \<Rightarrow> (error + program) option" where
  "parseProgram 0 ts body = None"
| "parseProgram (Suc k) ts body =
     (case peek ts of
        None \<Rightarrow> Some (Inl TypeError)
      | Some t \<Rightarrow>
          if ttype t \<noteq> eof then
            (case parseStatement k ts of
               None \<Rightarrow> None
             | Some (Inl e) \<Rightarrow> Some (Inl e)
             | Some (Inr (s, ts')) \<Rightarrow> parseProgram k ts' (body @ [s]))
          else Some (Inr (Program body)))"

text \<open>
  \<^verbatim>\<open>new Parser(tokens).parseProgram()\<close>. The fuel is three units for each token and
  two more; the section on the results of the parser shows that this is enough
  for the token lists of the tokenizer.
\<close>

definition parse :: "token list \<Rightarrow> (error + program) option" where
  "parse tokens = parseProgram (3 * length tokens + 2) tokens []"

text \<open>\<^verbatim>\<open>tokenize\<close> followed by the parser, as \<^verbatim>\<open>main\<close> runs them.\<close>

definition parse_source :: "string \<Rightarrow> (error + program) option" where
  "parse_source src = (case tokenize src of Inl e \<Rightarrow> Some (Inl e) | Inr tokens \<Rightarrow> parse tokens)"

subsection \<open>Instruction graph\<close>

text \<open>
  A block of the \<^verbatim>\<open>blocks\<close> object. \<^verbatim>\<open>next\<close> and \<^verbatim>\<open>parent\<close> hold \<^verbatim>\<open>null\<close> (\<open>None\<close>) or
  the id of a block; \<^verbatim>\<open>inputs\<close> and \<^verbatim>\<open>fields\<close> (\<open>fields_obj\<close>) are object literals, kept as the list
  of their properties.
\<close>

record block =
  opcode :: string
  inputs :: "(string \<times> jsvalue) list"
  fields_obj :: "(string \<times> jsvalue) list"
  next_id :: "string option"
  parent :: "string option"

text \<open>
  The state of one call of \<^verbatim>\<open>generateProject\<close>: the object \<^verbatim>\<open>blocks\<close>, and two
  components that stand for the environment. \<^verbatim>\<open>uuidv4\<close> (package \<^verbatim>\<open>uuid\<close>) returns a
  random UUID; the model takes the sequence of the strings it returns as a
  parameter \<open>uuidv4 :: nat \<Rightarrow> string\<close> and counts the calls made so far in \<open>uuids\<close>.
  \<open>created\<close> is a history of the ids returned by \<^verbatim>\<open>addBlock\<close>, in order of creation;
  the source has no such variable and nothing reads it.
\<close>

record gen_state =
  blocks :: "string \<rightharpoonup> block"
  uuids :: nat
  created :: "string list"

definition init_state :: gen_state where
  "init_state = \<lparr>blocks = Map.empty, uuids = 0, created = []\<rparr>"

text \<open>\<^verbatim>\<open>uuidv4().replace(/-/g, '').slice(0, 20)\<close> for the \<open>n\<close>-th call of \<^verbatim>\<open>uuidv4\<close>.\<close>

definition new_id :: "(nat \<Rightarrow> string) \<Rightarrow> nat \<Rightarrow> string" where
  "new_id uuidv4 n = take 20 (filter (\<lambda>c. c \<noteq> CHR ''-'') (uuidv4 n))"

definition addBlock ::
  "(nat \<Rightarrow> string) \<Rightarrow> string \<Rightarrow> (string \<times> jsvalue) list \<Rightarrow> (string \<times> jsvalue) list \<Rightarrow>
   string option \<Rightarrow> string option \<Rightarrow> gen_state \<Rightarrow> string \<times> gen_state" where
  "addBlock uuidv4 opc inp fld nxt par s =
     (let bid = new_id uuidv4 (uuids s)
      in (bid, s\<lparr>blocks := (blocks s)(bid \<mapsto>
                   \<lparr>opcode = opc, inputs = inp, fields_obj = fld, next_id = nxt, parent = par\<rparr>),
               uuids := Suc (uuids s),
               created := created s @ [bid]\<rparr>))"

text \<open>\<^verbatim>\<open>blocks[k].next = v\<close> and \<^verbatim>\<open>blocks[k].parent = v\<close>; \<^verbatim>\<open>blocks[k]\<close> must exist.\<close>

definition set_next :: "string \<Rightarrow> string option \<Rightarrow> gen_state \<Rightarrow> error + gen_state" where
  "set_next k v s =
     (case blocks s k of
        None \<Rightarrow> Inl TypeError
      | Some b \<Rightarrow> Inr (s\<lparr>blocks := (blocks s)(k \<mapsto> b\<lparr>next_id := v\<rparr>)\<rparr>))"

definition set_parent :: "string option \<Rightarrow> string option \<Rightarrow> gen_state \<Rightarrow> error + gen_state" where
  "set_parent k v s =
     (case k of
        None \<Rightarrow> Inl TypeError
      | Some i \<Rightarrow>
          (case blocks s i of
             None \<Rightarrow> Inl TypeError
           | Some b \<Rightarrow> Inr (s\<lparr>blocks := (blocks s)(i \<mapsto> b\<lparr>parent := v\<rparr>)\<rparr>)))"

text \<open>\<^verbatim>\<open>if (prevId) blocks[prevId].next = id\<close>.\<close>

definition link :: "string option \<Rightarrow> string option \<Rightarrow> gen_state \<Rightarrow> error + gen_state" where
  "link prevId v s =
     (case prevId of
        None \<Rightarrow> Inr s
      | Some p \<Rightarrow> if p = [] then Inr s else set_next p v s)"

text \<open>Truthiness of an id or \<^verbatim>\<open>null\<close>; the empty string is falsy.\<close>

definition truthy_id :: "string option \<Rightarrow> bool" where
  "truthy_id i = (case i of None \<Rightarrow> False | Some k \<Rightarrow> k \<noteq> [])"

definition ref :: "string option \<Rightarrow> jsvalue" where
  "ref i = (case i of None \<Rightarrow> Null | Some k \<Rightarrow> Str k)"

text \<open>\<^verbatim>\<open>args[i]\<close>: \<^verbatim>\<open>undefined\<close> past the end.\<close>

definition index :: "jsvalue list \<Rightarrow> nat \<Rightarrow> jsvalue" where
  "index args i = (if i < length args then args ! i else Undefined)"

text \<open>\<^verbatim>\<open>[1, [4, v]]\<close>, the shape of a numeric input.\<close>

definition shadow4 :: "jsvalue \<Rightarrow> jsvalue" where
  "shadow4 v = Arr [Num (num 1), Arr [Num (num 4), v]]"

text \<open>What \<^verbatim>\<open>compileStatements\<close> returns.\<close>

record compiled =
  first_id :: "string option"
  last_id :: "string option"
  blocksOrder :: "string list"

definition is_Event :: "stmt \<Rightarrow> bool" where
  "is_Event s = (case s of Event _ \<Rightarrow> True | _ \<Rightarrow> False)"

text \<open>
  The body shared by \<^verbatim>\<open>Repeat\<close>, \<^verbatim>\<open>LoopStatement\<close> and \<^verbatim>\<open>If\<close> after the nested list is
  compiled: create the container, then set the parent of the first nested block
  when \<^verbatim>\<open>blocksOrder.length\<close> is not zero.
\<close>

definition container ::
  "(nat \<Rightarrow> string) \<Rightarrow> string \<Rightarrow> (string \<times> jsvalue) list \<Rightarrow> compiled \<Rightarrow> gen_state \<Rightarrow>
   error + (string option \<times> gen_state)" where
  "container uuidv4 opc inp bodyFirst s =
     (let (bid, s1) = addBlock uuidv4 opc inp [] None None s
      in if blocksOrder bodyFirst \<noteq> [] then
           (case set_parent (first_id bodyFirst) (Some bid) s1 of
              Inl e \<Rightarrow> Inl e
            | Inr s2 \<Rightarrow> Inr (Some bid, s2))
         else Inr (Some bid, s1))"

text \<open>The statements of a \<^verbatim>\<open>Call\<close>, in the order of the source's tests.\<close>

definition compileCall ::
  "(nat \<Rightarrow> string) \<Rightarrow> jsvalue \<Rightarrow> jsvalue list \<Rightarrow> jsvalue \<Rightarrow> gen_state \<Rightarrow> string \<times> gen_state" where
  "compileCall uuidv4 name args for s =
     (if name = Str ''move'' then
        (let steps = or_js (index args 0) (Num (num 10))
         in addBlock uuidv4 ''motion_movesteps'' [(''STEPS'', shadow4 steps)] [] None None s)
      else if name = Str ''turn'' \<and> index args 0 = Str ''right'' then
        (let amount = or_js (index args 1) (Num (num 15))
         in addBlock uuidv4 ''motion_turnright'' [(''DEGREES'', shadow4 amount)] [] None None s)
      else if name = Str ''turn'' \<and> (index args 0 = Str ''lef'' \<or> index args 0 = Str ''left'') then
        (let amount = or_js (index args 1) (Num (num 15))
         in addBlock uuidv4 ''motion_turnleft'' [(''DEGREES'', shadow4 amount)] [] None None s)
      else if name = Str ''say'' then
        (let txt = or_js (index args 0) (Str [])
         in if truthy for then
              addBlock uuidv4 ''looks_sayforsecs''
                [(''MESSAGE'', Arr [Num (num 10), txt]), (''SECS'', shadow4 for)] [] None None s
            else addBlock uuidv4 ''looks_say'' [(''MESSAGE'', Arr [Num (num 10), txt])] [] None None s)
      else if name = Str ''wait'' then
        (let t = or_js (index args 0) (Num (num 1))
         in addBlock uuidv4 ''control_wait'' [(''DURATION'', shadow4 t)] [] None None s)
      else addBlock uuidv4 ''procedures_call'' [] [] None None s)"

text \<open>
  \<open>compileStatement\<close> returns the id of the block of the statement or \<^verbatim>\<open>null\<close>.
  \<open>compile_loop\<close> is the \<^verbatim>\<open>for\<close> loop of \<^verbatim>\<open>compileStatements\<close> over the statements
  that are left, with the loop's variables \<^verbatim>\<open>order\<close>, \<^verbatim>\<open>firstId\<close> and \<^verbatim>\<open>prevId\<close>.
  An \<^verbatim>\<open>Event\<close> of kind \<^verbatim>\<open>key\<close> passes every test of \<^verbatim>\<open>compileStatement\<close> and reaches
  its last line, the \<^verbatim>\<open>throw\<close>. In \<^verbatim>\<open>Repeat\<close> the source draws a UUID for \<^verbatim>\<open>repId\<close>
  and never uses it.
\<close>

fun compileStatement ::
    "(nat \<Rightarrow> string) \<Rightarrow> stmt \<Rightarrow> gen_state \<Rightarrow> error + (string option \<times> gen_state)"
  and compileStatements ::
    "(nat \<Rightarrow> string) \<Rightarrow> stmt list \<Rightarrow> gen_state \<Rightarrow> error + (compiled \<times> gen_state)"
  and compile_loop ::
    "(nat \<Rightarrow> string) \<Rightarrow> stmt list \<Rightarrow> string list \<Rightarrow> string option \<Rightarrow> string option \<Rightarrow>
     gen_state \<Rightarrow> error + (compiled \<times> gen_state)"
where
  "compileStatement uuidv4 (Call name args for) s =
     (let (bid, s1) = compileCall uuidv4 name args for s in Inr (Some bid, s1))"
| "compileStatement uuidv4 (Repeat count body) s =
     (case compileStatements uuidv4 body (s\<lparr>uuids := Suc (uuids s)\<rparr>) of
        Inl e \<Rightarrow> Inl e
      | Inr (bodyFirst, s1) \<Rightarrow>
          container uuidv4 ''control_repeat''
            [(''TIMES'', shadow4 count), (''SUBSTACK'', Arr [Num (num 2), ref (first_id bodyFirst)])]
            bodyFirst s1)"
| "compileStatement uuidv4 (Event Start) s =
     (let (bid, s1) = addBlock uuidv4 ''event_whenflagclicked'' [] [] None None s
      in Inr (Some bid, s1))"
| "compileStatement uuidv4 (Event Click) s =
     (let (bid, s1) = addBlock uuidv4 ''event_whenthisspriteclicked'' [] [] None None s
      in Inr (Some bid, s1))"
| "compileStatement uuidv4 (Event (Backdrop name)) s =
     (let (bid, s1) = addBlock uuidv4 ''event_whenbackdropswitchesto''
                       [(''BACKDROP'', Arr [Num (num 10), name])] [] None None s
      in Inr (Some bid, s1))"
| "compileStatement uuidv4 (Event (Key k)) s = Inl (UnhandledStmtType ''Event'')"
| "compileStatement uuidv4 (LoopStatement body) s =
     (case compileStatements uuidv4 body s of
        Inl e \<Rightarrow> Inl e
      | Inr (bodyFirst, s1) \<Rightarrow>
          container uuidv4 ''control_forever''
            [(''SUBSTACK'', Arr [Num (num 2), ref (first_id bodyFirst)])] bodyFirst s1)"
| "compileStatement uuidv4 (If_stmt condition consequent alternate) s =
     (case compileStatements uuidv4 consequent s of
        Inl e \<Rightarrow> Inl e
      | Inr (bodyFirst, s1) \<Rightarrow>
          container uuidv4 ''control_if''
            [(''CONDITION'', Arr [Num (num 1), Str condition]),
             (''SUBSTACK'', Arr [Num (num 2), ref (first_id bodyFirst)])] bodyFirst s1)"
| "compileStatement uuidv4 (AwaitUntil condition) s =
     (let (bid, s1) = addBlock uuidv4 ''control_wait_until''
                       [(''CONDITION'', Arr [Num (num 1), Str condition])] [] None None s
      in Inr (Some bid, s1))"
| "compileStatement uuidv4 Empty s = Inr (None, s)"
| "compileStatements uuidv4 stmts s = compile_loop uuidv4 stmts [] None None s"
| "compile_loop uuidv4 [] order firstId prevId s =
     Inr (\<lparr>first_id = firstId, last_id = prevId, blocksOrder = order\<rparr>, s)"
| "compile_loop uuidv4 (x # xs) order firstId prevId s =
     (case compileStatement uuidv4 x s of
        Inl e \<Rightarrow> Inl e
      | Inr (bid, s1) \<Rightarrow>
          (case bid of
             None \<Rightarrow> compile_loop uuidv4 xs order firstId prevId s1
           | Some i \<Rightarrow>
               if i = [] then compile_loop uuidv4 xs order firstId prevId s1
               else
                 (case link prevId bid s1 of
                    Inl e \<Rightarrow> Inl e
                  | Inr s2 \<Rightarrow>
                      compile_loop uuidv4 xs (order @ [i])
                        (if \<not> truthy_id firstId then bid else firstId) bid s2)))"

text \<open>
  The top-level loop of \<^verbatim>\<open>generateProject\<close> over \<^verbatim>\<open>ast.body\<close>. \<open>nodes\<close> are the
  statements the loop has not visited yet, \<open>scripts\<close> the array \<^verbatim>\<open>scripts\<close>. The
  result also reports \<^verbatim>\<open>startHat\<close>, the id of the hat created in the \<^verbatim>\<open>else\<close>
  branch, or \<open>None\<close> when the loop ended without taking that branch.
\<close>

record lowered =
  final :: gen_state
  scripts :: "string option list"
  startHat :: "string option"

fun top_loop ::
  "(nat \<Rightarrow> string) \<Rightarrow> stmt list \<Rightarrow> stmt list \<Rightarrow> string option list \<Rightarrow> gen_state \<Rightarrow>
   error + lowered" where
  "top_loop uuidv4 body [] scr s = Inr \<lparr>final = s, scripts = scr, startHat = None\<rparr>"
| "top_loop uuidv4 body (node # nodes) scr s =
     (if is_Event node then
        (case compileStatement uuidv4 node s of
           Inl e \<Rightarrow> Inl e
         | Inr (hatId, s1) \<Rightarrow> top_loop uuidv4 body nodes (scr @ [hatId]) s1)
      else
        (let (hat, s1) = addBlock uuidv4 ''event_whenflagclicked'' [] [] None None s
         in case compileStatements uuidv4 body s1 of
              Inl e \<Rightarrow> Inl e
            | Inr (compiled, s2) \<Rightarrow>
                if truthy_id (first_id compiled) then
                  (case set_next hat (first_id compiled) s2 of
                     Inl e \<Rightarrow> Inl e
                   | Inr s3 \<Rightarrow> Inr \<lparr>final = s3, scripts = scr, startHat = Some hat\<rparr>)
                else Inr \<lparr>final = s2, scripts = scr, startHat = Some hat\<rparr>))"

definition lower :: "(nat \<Rightarrow> string) \<Rightarrow> program \<Rightarrow> error + lowered" where
  "lower uuidv4 ast = (case ast of Program body \<Rightarrow> top_loop uuidv4 body body [] init_state)"

text \<open>
  \<^verbatim>\<open>generateProject(ast)\<close>: of the project it returns, only \<^verbatim>\<open>targets[0].blocks\<close>
  depends on the program; the rest is constant and left out.
\<close>

definition generateProject :: "(nat \<Rightarrow> string) \<Rightarrow> program \<Rightarrow> error + (string \<rightharpoonup> block)" where
  "generateProject uuidv4 ast =
     (case lower uuidv4 ast of Inl e \<Rightarrow> Inl e | Inr r \<Rightarrow> Inr (blocks (final r)))"

subsection \<open>Sample UUID sequences\<close>

text \<open>
  Two sequences of version-4 UUIDs for the concrete runs below. The UUIDs of
  \<open>sample_uuid\<close> differ in their first eight digits; those of \<open>tail_uuid\<close> are
  pairwise distinct as well, but differ only in their last twelve digits.
\<close>

definition sample_uuid :: "nat \<Rightarrow> string" where
  "sample_uuid n =
     replicate (8 - length (nat_digits n)) (CHR ''0'') @ nat_digits n @
     ''-0000-4000-8000-000000000000''"

definition tail_uuid :: "nat \<Rightarrow> string" where
  "tail_uuid n =
     ''00000000-0000-4000-8000-'' @
     replicate (12 - length (nat_digits n)) (CHR ''0'') @ nat_digits n"

section \<open>Properties\<close>

subsection \<open>Parsing the example program\<close>

text \<open>
  Claim C1. The header comment of the source gives
  \<^verbatim>\<open>on start; repeat(5) { move(10); turn right(15); }\<close> as an example program, and the
  claim says that it parses to \<open>Event start\<close> followed by a \<open>Repeat\<close> with the calls
  \<open>move(10)\<close> and \<open>turn("right", 15)\<close>. On the code the parse fails:
  \<^verbatim>\<open>parseSimple\<close> reads the name \<^verbatim>\<open>turn\<close>, finds neither \<^verbatim>\<open>(\<close> nor \<^verbatim>\<open>for\<close> nor \<^verbatim>\<open>;\<close>
  at the identifier \<^verbatim>\<open>right\<close>, and throws "Expected semicolon after statement turn".
\<close>

theorem parse_header_example_fails:
  "parse_source ''on start; repeat(5) { move(10); turn right(15); }'' =
     Some (Inl (ExpectedSemicolonAfter (Str ''turn'')))"
  by code_simp

text \<open>With the direction written as an argument the tree of the claim is what the parser returns.\<close>

lemma parse_turn_as_argument:
  "parse_source ''on start; repeat(5) { move(10); turn(right, 15); }'' =
     Some (Inr (Program
       [Event Start,
        Repeat (Num (num 5))
          [Call (Str ''move'') [Num (num 10)] Undefined,
           Call (Str ''turn'') [Str ''right'', Num (num 15)] Undefined]]))"
  by code_simp

subsection \<open>Commas in an argument list\<close>

text \<open>
  The tokens that the loop of \<^verbatim>\<open>parseSimple\<close> accepts as an argument are the
  numbers, the strings and the identifiers (\<open>is_arg\<close>). \<open>arg_tokens xs\<close> is the
  argument list written with the argument tokens \<open>map fst xs\<close>, each followed by a
  comma token where its flag is set: every placement of commas in which no
  argument has more than one comma after it, among them the lists with no comma
  at all and those with a comma after the last argument.
\<close>

definition is_arg :: "token \<Rightarrow> bool" where
  "is_arg t \<longleftrightarrow> ttype t = number \<or> ttype t = string \<or> ttype t = ident"

definition arg_tokens :: "(token \<times> bool) list \<Rightarrow> token list" where
  "arg_tokens xs =
     concat (map (\<lambda>(a, comma). if comma then [a, Token punct (Str '','')] else [a]) xs)"

lemma arg_tokens_simps [simp]:
  "arg_tokens [] = []"
  "arg_tokens ((a, c) # xs) =
     (if c then a # Token punct (Str '','') # arg_tokens xs else a # arg_tokens xs)"
  by (simp_all add: arg_tokens_def)

lemma args_loop_arg:
  assumes "is_arg a" "u \<noteq> Token punct (Str '','')"
  shows "args_loop (a # Token punct (Str '','') # ts) acc = args_loop ts (acc @ [tvalue a])"
    and "args_loop (a # u # ts) acc = args_loop (u # ts) (acc @ [tvalue a])"
  using assms by (auto simp: is_arg_def token.expand)

lemma arg_tokens_head:
  assumes "\<forall>x\<in>set xs. is_arg (fst x)"
  shows "\<exists>u ts. arg_tokens xs @ Token punct (Str '')'') # rest = u # ts \<and>
           u \<noteq> Token punct (Str '','')"
proof (cases xs)
  case Nil
  then show ?thesis by simp
next
  case (Cons x xs')
  obtain a c where x: "x = (a, c)" by (cases x)
  have "is_arg a" using assms Cons x by simp
  then have "a \<noteq> Token punct (Str '','')" by (auto simp: is_arg_def)
  then show ?thesis using Cons x by auto
qed

lemma args_loop_commas:
  "\<forall>x\<in>set xs. is_arg (fst x) \<Longrightarrow>
   args_loop (arg_tokens xs @ Token punct (Str '')'') # rest) acc =
     Inr (acc @ map (\<lambda>x. tvalue (fst x)) xs, Token punct (Str '')'') # rest)"
proof (induction xs arbitrary: acc)
  case Nil
  then show ?case by simp
next
  case (Cons x xs)
  obtain a c where x: "x = (a, c)" by (cases x)
  have a: "is_arg a" and xs: "\<forall>x\<in>set xs. is_arg (fst x)" using Cons.prems x by simp_all
  obtain u ts where more: "arg_tokens xs @ Token punct (Str '')'') # rest = u # ts"
    "u \<noteq> Token punct (Str '','')"
    using arg_tokens_head [OF xs] by blast
  have "args_loop (arg_tokens (x # xs) @ Token punct (Str '')'') # rest) acc =
        args_loop (arg_tokens xs @ Token punct (Str '')'') # rest) (acc @ [tvalue a])"
  proof (cases c)
    case True
    then show ?thesis
      using args_loop_arg(1) [OF a more(2)] by (simp add: x del: args_loop.simps)
  next
    case False
    then show ?thesis
      using args_loop_arg(2) [OF a more(2), of ts acc] by (simp add: x more del: args_loop.simps)
  qed
  then show ?case using Cons.IH [OF xs, of "acc @ [tvalue a]"] by (simp add: x)
qed

text \<open>
  Claim C9. In the argument list of a call the commas are optional and a trailing
  comma is accepted. For every list of argument tokens and every placement of
  the commas, the argument loop collects the values of the arguments in order,
  whatever it had collected before and whatever follows the closing parenthesis;
  and the statement \<open>name ( arguments ) ;\<close>, with a name that is no keyword of a
  statement, parses to the call of \<open>name\<close> with these values. So the tree does not
  depend on the commas. In particular \<^verbatim>\<open>foo(1 2);\<close> and \<^verbatim>\<open>foo(1,2,);\<close> parse to the
  same tree as \<^verbatim>\<open>foo(1,2);\<close>, the call of \<open>foo\<close> with the arguments 1 and 2.
\<close>

theorem call_commas_optional:
  assumes "\<forall>x\<in>set xs. is_arg (fst x)"
    and "name \<notin> set [''on'', ''repeat'', ''loop'', ''if'', ''await'']"
  shows
  "(\<forall>rest acc.
      args_loop (arg_tokens xs @ Token punct (Str '')'') # rest) acc =
        Inr (acc @ map (\<lambda>x. tvalue (fst x)) xs, Token punct (Str '')'') # rest)) \<and>
   parse (Token ident (Str name) # Token punct (Str ''('') # arg_tokens xs @
          [Token punct (Str '')''), Token punct (Str '';''), Token eof Undefined]) =
     Some (Inr (Program [Call (Str name) (map (\<lambda>x. tvalue (fst x)) xs) Undefined])) \<and>
   parse_source ''foo(1 2);'' =
     Some (Inr (Program [Call (Str ''foo'') [Num (num 1), Num (num 2)] Undefined])) \<and>
   parse_source ''foo(1,2,);'' =
     Some (Inr (Program [Call (Str ''foo'') [Num (num 1), Num (num 2)] Undefined])) \<and>
   parse_source ''foo(1,2);'' =
     Some (Inr (Program [Call (Str ''foo'') [Num (num 1), Num (num 2)] Undefined]))"
proof -
  let ?tail = "[Token punct (Str '';''), Token eof Undefined]"
  let ?ts = "Token ident (Str name) # Token punct (Str ''('') # arg_tokens xs @
          Token punct (Str '')'') # ?tail"
  have al: "args_loop (arg_tokens xs @ Token punct (Str '')'') # ?tail) [] =
      Inr (map (\<lambda>x. tvalue (fst x)) xs, Token punct (Str '')'') # ?tail)"
    using args_loop_commas [OF assms(1), of ?tail "[]"] by simp
  have ps: "parseSimple ?ts =
      Inr (Call (Str name) (map (\<lambda>x. tvalue (fst x)) xs) Undefined, [Token eof Undefined])"
    by (simp add: parseSimple_def seq_def next_defined_def next_token_def peek_is_def peek_def
        expect_def al Let_def)
  obtain k where k: "3 * length ?ts + 2 = Suc (Suc k)" by (simp add: numeral_eq_Suc)
  have st: "parseStatement (Suc k) ?ts = Some (parseSimple ?ts)"
    using assms(2) by (simp add: peek_def Let_def)
  have "parseProgram (Suc (Suc k)) ?ts [] =
      Some (Inr (Program [Call (Str name) (map (\<lambda>x. tvalue (fst x)) xs) Undefined]))"
    using st ps by (simp add: peek_def)
  then have "parse ?ts =
      Some (Inr (Program [Call (Str name) (map (\<lambda>x. tvalue (fst x)) xs) Undefined]))"
    unfolding parse_def k by simp
  moreover have "parse_source ''foo(1 2);'' =
     Some (Inr (Program [Call (Str ''foo'') [Num (num 1), Num (num 2)] Undefined]))"
   "parse_source ''foo(1,2,);'' =
     Some (Inr (Program [Call (Str ''foo'') [Num (num 1), Num (num 2)] Undefined]))"
   "parse_source ''foo(1,2);'' =
     Some (Inr (Program [Call (Str ''foo'') [Num (num 1), Num (num 2)] Undefined]))"
    by code_simp+
  ultimately show ?thesis using args_loop_commas [OF assms(1)] by simp
qed

theorem call_commas_optional_witness:
  "parse [Token ident (Str ''say''), Token punct (Str ''(''),
          Token ident (Str ''a''), Token string (Str ''hi''), Token punct (Str '',''),
          Token number (Num (num 3)), Token punct (Str '',''),
          Token punct (Str '')''), Token punct (Str '';''), Token eof Undefined] =
     Some (Inr (Program [Call (Str ''say'') [Str ''a'', Str ''hi'', Num (num 3)] Undefined]))"
  using call_commas_optional
    [of "[(Token ident (Str ''a''), False), (Token string (Str ''hi''), True),
          (Token number (Num (num 3)), True)]" "''say''"]
  by (simp add: is_arg_def)

subsection \<open>An unterminated string literal\<close>

text \<open>
  At a double quote that no other double quote follows, no alternative of the
  regular expression matches: the quote is not white space, so the leading
  \<^verbatim>\<open>\s*\<close> takes nothing, and none of the four groups can start there.
\<close>

lemma re_exec_open_quote:
  assumes "p < length input" "input ! p = CHR 0x22" "CHR 0x22 \<notin> set (drop (Suc p) input)"
  shows "re_exec input p = None"
proof -
  have d: "drop p input = CHR 0x22 # drop (Suc p) input"
    using assms(1,2) by (metis Cons_nth_drop_Suc)
  have sk: "skip_space input p = p"
    by (simp add: skip_space_def d is_space_def)
  have "match_punct (CHR 0x22 # r) = None" for r
    by (simp add: match_punct_def puncts_def)
  moreover have "match_ident (CHR 0x22 # r) = None" for r
    by (simp add: match_ident_def is_ident_start_def)
  moreover have "match_string (CHR 0x22 # drop (Suc p) input) = None"
    using assms(3) by (simp add: match_string_def)
  moreover have "match_number (CHR 0x22 # r) = None" for r
    by (simp add: match_number_def is_digit_def)
  ultimately show ?thesis
    by (simp add: re_exec_def sk d)
qed

lemma open_quote_loop:
  "input ! p = CHR 0x22 \<Longrightarrow> CHR 0x22 \<notin> set (drop (Suc p) input) \<Longrightarrow>
   p \<in> set (loop_positions input pos) \<Longrightarrow>
   tokenize_loop input pos tokens = Inl (UnexpectedTokenAt p (slice input p (p + 20)))"
proof (induction input pos tokens rule: tokenize_loop.induct)
  case (1 input pos tokens)
  note assms = "1.prems"(1,2) and mem = "1.prems"(3) and IH = "1.IH"
  have lt: "pos < length input"
    using mem by (subst (asm) loop_positions.simps) (simp split: if_splits)
  have unf: "p \<in> set (pos #
        (case re_exec input pos of
           None \<Rightarrow>
             (let ch = input ! pos
              in if ch = CHR 0x0A \<or> ch = CHR 0x0D \<or> ch = CHR 0x09 \<or> ch = CHR 0x20
                 then loop_positions input (pos + 1)
                 else [])
         | Some (g, m, lastIndex) \<Rightarrow> loop_positions input lastIndex))"
    using mem lt by (subst (asm) loop_positions.simps) simp
  show ?case
  proof (cases "pos = p")
    case True
    have "re_exec input p = None"
      using lt assms unfolding True by (rule re_exec_open_quote)
    then show ?thesis
      using lt True assms(1) by (subst tokenize_loop.simps) (simp add: Let_def)
  next
    case False
    show ?thesis
    proof (cases "re_exec input pos")
      case None
      let ?ch = "input ! pos"
      have ws: "?ch = CHR 0x0A \<or> ?ch = CHR 0x0D \<or> ?ch = CHR 0x09 \<or> ?ch = CHR 0x20"
        and m: "p \<in> set (loop_positions input (pos + 1))"
        using unf False None by (auto simp: Let_def split: if_splits)
      have "tokenize_loop input (pos + 1) tokens =
              Inl (UnexpectedTokenAt p (slice input p (p + 20)))"
        by (rule IH(1) [OF lt None refl ws assms m])
      then show ?thesis
        using lt None ws by (subst tokenize_loop.simps) (simp add: Let_def)
    next
      case (Some r)
      obtain g m lastIndex where r: "r = (g, m, lastIndex)" by (cases r)
      have m: "p \<in> set (loop_positions input lastIndex)"
        using unf False Some r by simp
      have "tokenize_loop input lastIndex (tokens @ [token_of g m]) =
              Inl (UnexpectedTokenAt p (slice input p (p + 20)))"
        by (rule IH(2) [OF lt Some [unfolded r] refl refl assms m])
      then show ?thesis
        using lt Some r by (subst tokenize_loop.simps) simp
    qed
  qed
qed


text \<open>
  Claim C10. Whenever the loop of \<^verbatim>\<open>tokenize\<close> comes to a position \<open>p\<close> (a position
  at which it starts a token) where the input has a double quote, and no double
  quote stands anywhere after \<open>p\<close>, \<^verbatim>\<open>tokenize\<close> throws "Unexpected token at p"
  with the snippet \<^verbatim>\<open>input.slice(p, p + 20)\<close>; the literal is neither tokenized nor
  skipped.
\<close>

theorem unterminated_string_fails:
  assumes "p \<in> set (loop_positions input 0)" "input ! p = CHR 0x22"
    "CHR 0x22 \<notin> set (drop (Suc p) input)"
  shows "tokenize input = Inl (UnexpectedTokenAt p (slice input p (p + 20)))"
  unfolding tokenize_def using assms(2,3,1) by (rule open_quote_loop)


theorem unterminated_string_fails_witness:
  "4 \<in> set (loop_positions (''say '' @ [CHR 0x22] @ ''hi'') 0) \<and>
   (''say '' @ [CHR 0x22] @ ''hi'') ! 4 = CHR 0x22 \<and>
   CHR 0x22 \<notin> set (drop (Suc 4) (''say '' @ [CHR 0x22] @ ''hi'')) \<and>
   tokenize (''say '' @ [CHR 0x22] @ ''hi'') =
     Inl (UnexpectedTokenAt 4 (slice (''say '' @ [CHR 0x22] @ ''hi'') 4 (4 + 20)))"
proof -
  have h: "4 \<in> set (loop_positions (''say '' @ [CHR 0x22] @ ''hi'') 0)"
    "(''say '' @ [CHR 0x22] @ ''hi'') ! 4 = CHR 0x22"
    "CHR 0x22 \<notin> set (drop (Suc 4) (''say '' @ [CHR 0x22] @ ''hi''))"
    by code_simp+
  show ?thesis
    using h unterminated_string_fails [OF h] by blast
qed

subsection \<open>The results of the parser\<close>

text \<open>
  Claim C6, as the specification states it, says that \<^verbatim>\<open>parse\<close> returns a program
  or fails with a \<open>ParseError\<close> that carries the expected construct, the token found
  and a position, and that an \<^verbatim>\<open>if\<close> whose parenthesis is never closed fails in
  this way too. On the code it does not: for \<^verbatim>\<open>if (x\<close> the loop that collects the
  condition consumes the end-of-input token and the next \<^verbatim>\<open>this.peek().type\<close> is a
  \<open>TypeError\<close>; and for \<^verbatim>\<open>loop {\<close> the error is \<^verbatim>\<open>new Error('Unclosed block')\<close>, which
  carries neither a token nor a position.
\<close>

theorem parse_error_counterexample:
  "parse_source ''if (x'' = Some (Inl TypeError) \<and>
   parse_source ''loop {'' = Some (Inl UnclosedBlock)"
  by code_simp

text \<open>
  The token lists of the amended claim: \<open>eof_ended\<close>, the last token is the
  end-of-input token, as in every result of \<^verbatim>\<open>tokenize\<close>. \<open>unclosed_condition\<close>:
  somewhere in the list there is an \<^verbatim>\<open>if (\<close> or an \<^verbatim>\<open>await until (\<close> with no \<^verbatim>\<open>)\<close>
  anywhere after it. \<open>parser_error ts e\<close> lists the errors the
  parser itself throws on \<open>ts\<close>, with what each carries: the error of \<^verbatim>\<open>expect\<close>
  has the expected type and value and the token found, which differs from them;
  three more carry the token found; "Expected semicolon after statement" carries
  the name of the call; the others carry nothing. None has a position.
\<close>

definition eof_ended :: "token list \<Rightarrow> bool" where
  "eof_ended ts \<longleftrightarrow> ts \<noteq> [] \<and> ttype (last ts) = eof"

definition cond_start :: "token list \<Rightarrow> bool" where
  "cond_start ts \<longleftrightarrow>
     take 2 ts = [Token ident (Str ''if''), Token punct (Str ''('')] \<or>
     take 3 ts =
       [Token ident (Str ''await''), Token ident (Str ''until''), Token punct (Str ''('')]"

fun unclosed_condition :: "token list \<Rightarrow> bool" where
  "unclosed_condition [] = False"
| "unclosed_condition (t # ts) =
     (cond_start (t # ts) \<and> Token punct (Str '')'') \<notin> set ts \<or> unclosed_condition ts)"

fun parser_error :: "token list \<Rightarrow> error \<Rightarrow> bool" where
  "parser_error ts (ExpectedGot type val t) =
     (t \<in> set ts \<and> (ttype t \<noteq> type \<or> tvalue t \<noteq> val))"
| "parser_error ts (UnexpectedTokenInStatement t) = (t \<in> set ts)"
| "parser_error ts UnclosedBlock = True"
| "parser_error ts ExpectedKey = True"
| "parser_error ts ExpectedString = True"
| "parser_error ts (UnknownEvent t) = (t \<in> set ts)"
| "parser_error ts ExpectedNumberInRepeat = True"
| "parser_error ts UnknownAwaitForm = True"
| "parser_error ts (UnexpectedArgToken t) = (t \<in> set ts)"
| "parser_error ts ExpectedNumberInFor = True"
| "parser_error ts (ExpectedSemicolonAfter name) = True"
| "parser_error ts (UnexpectedTokenAt p snippet) = False"
| "parser_error ts (UnhandledStmtType ty) = False"
| "parser_error ts TypeError = False"


text \<open>
  A result is \<open>goodw\<close> for the tokens \<open>ts\<close> when it is one of these errors, or a
  value with a cursor that is a suffix of \<open>ts\<close> and still ends in the end-of-input
  token; it is \<open>good\<close> when moreover at least one token was consumed. \<open>goodf\<close> and
  \<open>goodfw\<close> add that the fuel was enough.
\<close>

definition goodw :: "token list \<Rightarrow> 'a presult \<Rightarrow> bool" where
  "goodw ts r =
     (case r of
        Inl e \<Rightarrow> parser_error ts e \<or> (e = TypeError \<and> unclosed_condition ts)
      | Inr (x, ts') \<Rightarrow> suffix ts' ts \<and> eof_ended ts')"

definition good :: "token list \<Rightarrow> 'a presult \<Rightarrow> bool" where
  "good ts r \<longleftrightarrow> goodw ts r \<and> (\<forall>x ts'. r = Inr (x, ts') \<longrightarrow> length ts' < length ts)"

lemma eof_ended_Cons [simp]:
  "eof_ended (t # ts) = (if ts = [] then ttype t = eof else eof_ended ts)"
  by (simp add: eof_ended_def)

lemma eof_ended_Nil [simp]: "\<not> eof_ended []"
  by (simp add: eof_ended_def)

lemma parser_error_mono: "parser_error ts' e \<Longrightarrow> set ts' \<subseteq> set ts \<Longrightarrow> parser_error ts e"
  by (cases e) auto

lemma unclosed_condition_suffix:
  "unclosed_condition ts' \<Longrightarrow> suffix ts' ts \<Longrightarrow> unclosed_condition ts"
  by (induction ts) (auto simp: suffix_Cons)

lemma goodw_mono: "goodw ts r" if "goodw ts' r" "suffix ts' ts"
proof (cases r)
  case (Inl e)
  then show ?thesis
    using that
    by (auto simp: goodw_def intro: parser_error_mono unclosed_condition_suffix
        dest: set_mono_suffix)
next
  case (Inr p)
  then show ?thesis
    using that by (auto simp: goodw_def intro: suffix_order.trans)
qed

lemma good_mono: "good ts r" if "good ts' r" "suffix ts' ts"
  using that goodw_mono [of ts' r ts] suffix_length_le [of ts' ts]
  by (fastforce simp: good_def)

lemma good_weak: "good ts r \<Longrightarrow> goodw ts r"
  by (simp add: good_def)

lemma goodw_ret: "eof_ended ts \<Longrightarrow> goodw ts (Inr (x, ts))"
  by (simp add: goodw_def)

lemma seq_Inl [simp]: "seq (Inl e) f = Inl e"
  and seq_Inr [simp]: "seq (Inr (x, ts)) f = f x ts"
  by (simp_all add: seq_def)

lemma expect_Nil [simp]: "expect type val [] = Inl TypeError"
  and expect_Cons [simp]: "expect type val (t # ts) =
     (if ttype t \<noteq> type \<or> (val \<noteq> Undefined \<and> tvalue t \<noteq> val)
      then Inl (ExpectedGot type val t) else Inr (t, ts))"
  by (simp_all add: expect_def peek_def next_token_def)

lemma next_defined_simps [simp]:
  "next_defined [] = Inl TypeError" "next_defined (t # ts) = Inr (t, ts)"
  by (simp_all add: next_defined_def next_token_def)

lemma peek_is_simps [simp]:
  "peek_is [] type val = Inl TypeError"
  "peek_is (t # ts) type val = Inr (ttype t = type \<and> tvalue t = val)"
  by (simp_all add: peek_is_def peek_def)

lemma next_token_simps [simp]:
  "next_token [] = (None, [])" "next_token (t # ts) = (Some t, ts)"
  by (simp_all add: next_token_def)

lemma peek_simps [simp]: "peek [] = None" "peek (t # ts) = Some t"
  by (simp_all add: peek_def)

lemma seq_ww:
  assumes "goodw ts r"
    and "\<And>x ts'. r = Inr (x, ts') \<Longrightarrow> suffix ts' ts \<Longrightarrow> eof_ended ts' \<Longrightarrow> goodw ts' (f x ts')"
  shows "goodw ts (seq r f)"
proof (cases r)
  case (Inl e)
  then show ?thesis using assms(1) by (simp add: goodw_def)
next
  case (Inr p)
  obtain x ts' where p: "p = (x, ts')" by (cases p)
  have s: "suffix ts' ts" "eof_ended ts'" using assms(1) Inr p by (simp_all add: goodw_def)
  then have "goodw ts' (f x ts')" using assms(2) Inr p by blast
  then have "goodw ts (f x ts')" using s(1) by (rule goodw_mono)
  then show ?thesis using Inr p by simp
qed

lemma seq_sw:
  assumes "good ts r"
    and "\<And>x ts'. r = Inr (x, ts') \<Longrightarrow> suffix ts' ts \<Longrightarrow> eof_ended ts' \<Longrightarrow> goodw ts' (f x ts')"
  shows "good ts (seq r f)"
proof (cases r)
  case (Inl e)
  then show ?thesis using assms(1) by (simp add: good_def goodw_def)
next
  case (Inr p)
  obtain x ts' where p: "p = (x, ts')" by (cases p)
  have s: "suffix ts' ts" "eof_ended ts'" "length ts' < length ts"
    using assms(1) Inr p by (simp_all add: goodw_def good_def)
  then have w: "goodw ts' (f x ts')" using assms(2) Inr p by blast
  then have "goodw ts (f x ts')" using s(1) by (rule goodw_mono)
  moreover have "length ts'' < length ts" if "f x ts' = Inr (y, ts'')" for y ts''
    using w that s(3) suffix_length_le [of ts'' ts'] by (simp add: goodw_def)
  ultimately show ?thesis using Inr p by (simp add: good_def)
qed

lemma seq_ws:
  assumes "goodw ts r"
    and "\<And>x ts'. r = Inr (x, ts') \<Longrightarrow> suffix ts' ts \<Longrightarrow> eof_ended ts' \<Longrightarrow> good ts' (f x ts')"
  shows "good ts (seq r f)"
proof (cases r)
  case (Inl e)
  then show ?thesis using assms(1) by (simp add: good_def goodw_def)
next
  case (Inr p)
  obtain x ts' where p: "p = (x, ts')" by (cases p)
  have s: "suffix ts' ts" "eof_ended ts'" using assms(1) Inr p by (simp_all add: goodw_def)
  then have "good ts' (f x ts')" using assms(2) Inr p by blast
  then have "good ts (f x ts')" using s(1) by (rule good_mono)
  then show ?thesis using Inr p by simp
qed

lemma good_expect:
  "eof_ended ts \<Longrightarrow> type \<noteq> eof \<Longrightarrow> val \<noteq> Undefined \<Longrightarrow> good ts (expect type val ts)"
  by (cases ts) (auto simp: good_def goodw_def suffix_Cons split: if_splits)

lemma expect_case:
  "expect type val ts =
     (case ts of
        [] \<Rightarrow> Inl TypeError
      | t # ts' \<Rightarrow>
          if ttype t \<noteq> type \<or> (val \<noteq> Undefined \<and> tvalue t \<noteq> val)
          then Inl (ExpectedGot type val t) else Inr (t, ts'))"
  by (cases ts) simp_all

lemma next_defined_case:
  "next_defined ts = (case ts of [] \<Rightarrow> Inl TypeError | t # ts' \<Rightarrow> Inr (t, ts'))"
  by (cases ts) simp_all

lemma good_parseEvent: "eof_ended ts \<Longrightarrow> good ts (parseEvent ts)"
  by (auto simp: parseEvent_def good_def goodw_def suffix_Cons expect_case next_defined_case
      split: list.splits if_splits)


lemma eof_ended_suffix: "eof_ended ts \<Longrightarrow> suffix ts' ts \<Longrightarrow> ts' \<noteq> [] \<Longrightarrow> eof_ended ts'"
  by (auto simp: eof_ended_def suffix_def)

lemma cond_loop_Inr:
  "cond_loop ts acc = Inr (c, ts') \<Longrightarrow> suffix ts' ts \<and> (\<exists>r. ts' = Token punct (Str '')'') # r)"
  by (induction ts acc rule: cond_loop.induct)
    (auto simp: suffix_Cons token.expand split: if_splits)

lemma cond_loop_Inl:
  "cond_loop ts acc = Inl e \<Longrightarrow> e = TypeError \<and> Token punct (Str '')'') \<notin> set ts"
  by (induction ts acc rule: cond_loop.induct) (auto split: if_splits)

lemma parser_error_Cons: "parser_error ts e \<Longrightarrow> parser_error (t # ts) e"
  by (rule parser_error_mono) auto

lemma args_loop_Cons:
  "args_loop (t # ts) args =
     (if ttype t = punct \<and> tvalue t = Str '')'' then Inr (args, t # ts)
      else if ttype t = number \<or> ttype t = string \<or> ttype t = ident then
        (case ts of
           [] \<Rightarrow> Inl TypeError
         | u # us \<Rightarrow>
             if ttype u = punct \<and> tvalue u = Str '','' then args_loop us (args @ [tvalue t])
             else args_loop ts (args @ [tvalue t]))
      else Inl (UnexpectedArgToken t))"
  by (cases ts) simp_all

declare args_loop.simps(2) [simp del]

lemma args_loop_Inr:
  "args_loop ts acc = Inr (a, ts') \<Longrightarrow> suffix ts' ts \<and> (\<exists>r. ts' = Token punct (Str '')'') # r)"
proof (induction ts acc rule: args_loop.induct)
  case (1 args)
  then show ?case by simp
next
  case (2 t ts args)
  show ?case
    using "2.prems" "2.IH"
    by (subst (asm) args_loop_Cons)
      (auto simp: suffix_Cons token.expand split: if_splits list.splits)
qed

lemma args_loop_Inl:
  "args_loop ts acc = Inl e \<Longrightarrow> eof_ended ts \<Longrightarrow> parser_error ts e"
proof (induction ts acc rule: args_loop.induct)
  case (1 args)
  then show ?case by simp
next
  case (2 t ts args)
  show ?case
    using "2.prems" "2.IH"
    by (subst (asm) args_loop_Cons)
      (auto intro: parser_error_Cons split: if_splits list.splits)
qed

lemma good_repeat_head: "eof_ended ts \<Longrightarrow> good ts (repeat_head ts)"
  by (auto simp: repeat_head_def good_def goodw_def suffix_Cons expect_case next_defined_case
      split: list.splits if_splits)


lemma after_paren:
  assumes "suffix (Token punct (Str '')'') # r) ts" "eof_ended ts"
  shows "eof_ended r" "suffix r ts" "length r < length ts"
proof -
  have "eof_ended (Token punct (Str '')'') # r)"
    by (rule eof_ended_suffix [OF assms(2,1)]) simp
  then show "eof_ended r" by (simp split: if_splits)
  show "suffix r ts" using assms(1) by (rule suffix_ConsD)
  show "length r < length ts" using suffix_length_le [OF assms(1)] by simp
qed

lemma goodw_tail: "goodw ts r \<Longrightarrow> good (t # ts) r"
  using goodw_mono [of ts r "t # ts"] suffix_length_le [of _ ts]
  by (fastforce simp: good_def goodw_def suffix_Cons split: sum.splits)

lemma good_cond:
  assumes "eof_ended ts" "suffix ts whole" "length ts < length whole"
    and "Token punct (Str '')'') \<notin> set ts \<Longrightarrow> unclosed_condition whole"
    and "\<And>c r. eof_ended r \<Longrightarrow> suffix r ts \<Longrightarrow> goodw r (k c r)"
  shows "good whole (seq (cond_loop ts []) (\<lambda>c ts'. seq (expect punct (Str '')'') ts') (\<lambda>_. k c)))"
proof (cases "cond_loop ts []")
  case (Inl e)
  then show ?thesis
    using assms(4) cond_loop_Inl [OF Inl] by (simp add: good_def goodw_def)
next
  case (Inr p)
  obtain c ts' where p: "p = (c, ts')" by (cases p)
  obtain r where r: "ts' = Token punct (Str '')'') # r" "suffix ts' ts"
    using cond_loop_Inr Inr p by blast
  have a: "eof_ended r" "suffix r ts" "length r < length ts"
    using after_paren [OF r(2) [unfolded r(1)] assms(1)] .
  have "goodw r (k c r)" using a(1,2) by (rule assms(5))
  then have "good ts (k c r)"
    using goodw_mono [of r "k c r" ts] a(2,3) suffix_length_le [of _ r]
    by (fastforce simp: good_def goodw_def split: sum.splits)
  then have "good whole (k c r)" using assms(2) by (rule good_mono)
  then show ?thesis using Inr p r by simp
qed

lemma expect_Inr:
  "expect type val ts = Inr (t, ts') \<Longrightarrow> val \<noteq> Undefined \<Longrightarrow> ts = Token type val # ts' \<and> t = Token type val"
  by (cases ts) (auto simp: token.expand split: if_splits)

lemma unclosed_if:
  "Token punct (Str '')'') \<notin> set ts \<Longrightarrow>
   unclosed_condition (Token ident (Str ''if'') # Token punct (Str ''('') # ts)"
  by (simp add: cond_start_def)

lemma unclosed_await:
  "Token punct (Str '')'') \<notin> set ts \<Longrightarrow>
   unclosed_condition
     (Token ident (Str ''await'') # Token ident (Str ''until'') # Token punct (Str ''('') # ts)"
  by (simp add: cond_start_def)

lemma good_if_head:
  assumes "eof_ended ts"
  shows "good ts (if_head ts)"
proof (cases "expect ident (Str ''if'') ts")
  case (Inl e)
  then show ?thesis
    using good_expect [OF assms, of ident "Str ''if''"] by (simp add: if_head_def good_def goodw_def)
next
  case (Inr p)
  obtain x ts1 where p: "p = (x, ts1)" by (cases p)
  have ts: "ts = Token ident (Str ''if'') # ts1" using expect_Inr [OF Inr [unfolded p]] by simp
  have e1: "eof_ended ts1" using assms ts by (auto split: if_splits)
  show ?thesis
  proof (cases "expect punct (Str ''('') ts1")
    case (Inl e)
    have "good ts1 (expect punct (Str ''('') ts1)" using e1 by (simp add: good_expect)
    then have "goodw ts1 (Inl e :: token list presult)" using Inl by (simp add: good_def goodw_def)
    then have "good ts (Inl e :: token list presult)" unfolding ts by (rule goodw_tail)
    then show ?thesis using Inl by (simp add: if_head_def ts)
  next
    case (Inr q)
    obtain y ts2 where q: "q = (y, ts2)" by (cases q)
    have ts1: "ts1 = Token punct (Str ''('') # ts2"
      using expect_Inr [OF Inr [unfolded q]] by simp
    have e2: "eof_ended ts2" using e1 ts1 by (auto split: if_splits)
    have "good ts
            (seq (cond_loop ts2 []) (\<lambda>condTokens ts.
             seq (expect punct (Str '')'') ts) (\<lambda>_ ts.
             seq (expect punct (Str ''{'') ts) (\<lambda>_ ts. Inr (condTokens, ts)))))"
    proof (rule good_cond [OF e2])
      show "suffix ts2 ts" by (simp add: ts ts1 suffix_Cons)
      show "length ts2 < length ts" by (simp add: ts ts1)
      show "unclosed_condition ts" if "Token punct (Str '')'') \<notin> set ts2"
        unfolding ts ts1 using that by (rule unclosed_if)
    next
      fix c r
      assume "eof_ended r"
      then show "goodw r (seq (expect punct (Str ''{'') r) (\<lambda>_ ts. Inr (c, ts)))"
        by (intro seq_ww goodw_ret) (simp_all add: good_expect good_weak)
    qed
    then show ?thesis by (simp add: if_head_def ts ts1)
  qed
qed

lemma good_parseAwait:
  assumes "eof_ended ts"
  shows "good ts (parseAwait ts)"
proof (cases "expect ident (Str ''await'') ts")
  case (Inl e)
  then show ?thesis
    using good_expect [OF assms, of ident "Str ''await''"]
    by (simp add: parseAwait_def good_def goodw_def)
next
  case (Inr p)
  obtain x ts1 where p: "p = (x, ts1)" by (cases p)
  have ts: "ts = Token ident (Str ''await'') # ts1"
    using expect_Inr [OF Inr [unfolded p]] by simp
  have e1: "eof_ended ts1" using assms ts by (auto split: if_splits)
  then obtain t ts2 where ts1: "ts1 = t # ts2" by (cases ts1) auto
  show ?thesis
  proof (cases "ttype t = ident \<and> tvalue t = Str ''until''")
    case False
    then show ?thesis by (auto simp: parseAwait_def ts ts1 good_def goodw_def)
  next
    case True
    then have t: "t = Token ident (Str ''until'')" by (simp add: token.expand)
    have e2: "eof_ended ts2" using e1 ts1 True by (auto split: if_splits)
    show ?thesis
    proof (cases "expect punct (Str ''('') ts2")
      case (Inl e)
      have "good ts2 (expect punct (Str ''('') ts2)" using e2 by (simp add: good_expect)
      then have "goodw ts2 (Inl e :: stmt presult)" using Inl by (simp add: good_def goodw_def)
      then have "goodw ts (Inl e :: stmt presult)"
        by (rule goodw_mono) (simp add: ts ts1 suffix_Cons)
      then show ?thesis using Inl True by (simp add: parseAwait_def ts ts1 good_def)
    next
      case (Inr q)
      obtain y ts3 where q: "q = (y, ts3)" by (cases q)
      have ts2: "ts2 = Token punct (Str ''('') # ts3"
        using expect_Inr [OF Inr [unfolded q]] by simp
      have e3: "eof_ended ts3" using e2 ts2 by (auto split: if_splits)
      have "good ts
              (seq (cond_loop ts3 []) (\<lambda>condTokens ts.
               seq (expect punct (Str '')'') ts) (\<lambda>_ ts.
               seq (expect punct (Str '';'') ts) (\<lambda>_ ts.
                 Inr (AwaitUntil (condition_text condTokens), ts)))))"
      proof (rule good_cond [OF e3])
        show "suffix ts3 ts" by (simp add: ts ts1 ts2 suffix_Cons)
        show "length ts3 < length ts" by (simp add: ts ts1 ts2)
        show "unclosed_condition ts" if "Token punct (Str '')'') \<notin> set ts3"
          unfolding ts ts1 ts2 t using that by (rule unclosed_await)
      next
        fix c r
        assume "eof_ended r"
        then show "goodw r (seq (expect punct (Str '';'') r)
                     (\<lambda>_ ts. Inr (AwaitUntil (condition_text c), ts)))"
          by (intro seq_ww goodw_ret) (simp_all add: good_expect good_weak)
      qed
      then show ?thesis using True by (simp add: parseAwait_def ts ts1 ts2)
    qed
  qed
qed

lemma goodw_args:
  assumes "eof_ended ts"
  shows "goodw ts
           (case peek_is ts punct (Str ''('') of
              Inl e \<Rightarrow> Inl e
            | Inr True \<Rightarrow>
                seq (args_loop (snd (next_token ts)) []) (\<lambda>args ts.
                seq (expect punct (Str '')'') ts) (\<lambda>_ ts. Inr (args, ts)))
            | Inr False \<Rightarrow> Inr ([], ts))"
proof -
  obtain t ts1 where ts: "ts = t # ts1" using assms by (cases ts) auto
  show ?thesis
  proof (cases "ttype t = punct \<and> tvalue t = Str ''(''")
    case False
    then show ?thesis using assms by (auto simp: ts goodw_def)
  next
    case True
    then have e1: "eof_ended ts1" using assms ts by (auto split: if_splits)
    have "goodw ts1 (seq (args_loop ts1 []) (\<lambda>args ts.
                seq (expect punct (Str '')'') ts) (\<lambda>_ ts. Inr (args, ts))))"
    proof (cases "args_loop ts1 []")
      case (Inl e)
      then show ?thesis using args_loop_Inl [OF Inl e1] by (simp add: goodw_def)
    next
      case (Inr p)
      obtain a ts' where p: "p = (a, ts')" by (cases p)
      obtain r where r: "ts' = Token punct (Str '')'') # r" "suffix ts' ts1"
        using args_loop_Inr Inr p by blast
      have "eof_ended r" "suffix r ts1"
        using after_paren [OF r(2) [unfolded r(1)] e1] by simp_all
      then show ?thesis using Inr p r by (simp add: goodw_def)
    qed
    then have "goodw ts (seq (args_loop ts1 []) (\<lambda>args ts.
                seq (expect punct (Str '')'') ts) (\<lambda>_ ts. Inr (args, ts))))"
      by (rule goodw_mono) (simp add: ts suffix_Cons)
    then show ?thesis using True by (simp add: ts)
  qed
qed

lemma goodw_for:
  assumes "eof_ended ts"
  shows "goodw ts
           (case peek_is ts ident (Str ''for'') of
              Inl e \<Rightarrow> Inl e
            | Inr True \<Rightarrow>
                seq (expect punct (Str ''('') (snd (next_token ts))) (\<lambda>_ ts.
                seq (next_defined ts) (\<lambda>n ts.
                  if ttype n \<noteq> number then Inl ExpectedNumberInFor
                  else seq (expect punct (Str '')'') ts) (\<lambda>_ ts. Inr (tvalue n, ts))))
            | Inr False \<Rightarrow> Inr (Undefined, ts))"
  using assms
  by (auto simp: goodw_def suffix_Cons expect_case next_defined_case peek_is_def peek_def
      split: list.splits if_splits bool.splits)

lemma goodw_semicolon:
  assumes "eof_ended ts"
  shows "goodw ts
           (case peek_is ts punct (Str '';'') of
              Inl e \<Rightarrow> Inl e
            | Inr True \<Rightarrow> Inr (x, snd (next_token ts))
            | Inr False \<Rightarrow> Inl (ExpectedSemicolonAfter name))"
  using assms
  by (auto simp: goodw_def suffix_Cons peek_is_def peek_def
      split: list.splits if_splits bool.splits)

lemma good_parseSimple:
  assumes "eof_ended ts" "ttype (hd ts) = ident"
  shows "good ts (parseSimple ts)"
proof -
  obtain t ts1 where ts: "ts = t # ts1" using assms by (cases ts) auto
  have e1: "eof_ended ts1" using assms ts by (auto split: if_splits)
  have "goodw ts1
     (seq (case peek_is ts1 punct (Str ''('') of
            Inl e \<Rightarrow> Inl e
          | Inr True \<Rightarrow>
              seq (args_loop (snd (next_token ts1)) []) (\<lambda>args ts.
              seq (expect punct (Str '')'') ts) (\<lambda>_ ts. Inr (args, ts)))
          | Inr False \<Rightarrow> Inr ([], ts1)) (\<lambda>args ts.
     seq (case peek_is ts ident (Str ''for'') of
            Inl e \<Rightarrow> Inl e
          | Inr True \<Rightarrow>
              seq (expect punct (Str ''('') (snd (next_token ts))) (\<lambda>_ ts.
              seq (next_defined ts) (\<lambda>n ts.
                if ttype n \<noteq> number then Inl ExpectedNumberInFor
                else seq (expect punct (Str '')'') ts) (\<lambda>_ ts. Inr (tvalue n, ts))))
          | Inr False \<Rightarrow> Inr (Undefined, ts)) (\<lambda>for ts.
     case peek_is ts punct (Str '';'') of
       Inl e \<Rightarrow> Inl e
     | Inr True \<Rightarrow> Inr (Call (tvalue t) args for, snd (next_token ts))
     | Inr False \<Rightarrow> Inl (ExpectedSemicolonAfter (tvalue t)))))"
    by (intro seq_ww goodw_args goodw_for goodw_semicolon e1)
  then show ?thesis
    unfolding ts by (simp add: parseSimple_def Let_def goodw_tail)
qed


definition goodfw :: "token list \<Rightarrow> 'a presult option \<Rightarrow> bool" where
  "goodfw ts r \<longleftrightarrow> (\<exists>r'. r = Some r' \<and> goodw ts r')"

definition goodf :: "token list \<Rightarrow> 'a presult option \<Rightarrow> bool" where
  "goodf ts r \<longleftrightarrow> (\<exists>r'. r = Some r' \<and> good ts r')"

lemma goodf_Some [simp]: "goodf ts (Some r) = good ts r"
  and goodfw_Some [simp]: "goodfw ts (Some r) = goodw ts r"
  by (simp_all add: goodf_def goodfw_def)

lemma goodf_weak: "goodf ts r \<Longrightarrow> goodfw ts r"
  by (auto simp: goodf_def goodfw_def good_weak)

lemma goodfw_mono: "goodfw ts' r \<Longrightarrow> suffix ts' ts \<Longrightarrow> goodfw ts r"
  by (auto simp: goodfw_def intro: goodw_mono)

lemma goodfw_tail: "goodfw ts r \<Longrightarrow> goodf (t # ts) r"
  by (auto simp: goodf_def goodfw_def intro: goodw_tail)

lemma seqf_ww:
  assumes "goodfw ts r"
    and "\<And>x ts'. r = Some (Inr (x, ts')) \<Longrightarrow> suffix ts' ts \<Longrightarrow> eof_ended ts' \<Longrightarrow>
           goodfw ts' (f x ts')"
  shows "goodfw ts (seqf r f)"
proof -
  obtain r' where r': "r = Some r'" "goodw ts r'" using assms(1) by (auto simp: goodfw_def)
  show ?thesis
  proof (cases r')
    case (Inl e)
    then show ?thesis using r' by (simp add: seqf_def goodw_def)
  next
    case (Inr p)
    obtain x ts' where p: "p = (x, ts')" by (cases p)
    have s: "suffix ts' ts" "eof_ended ts'" using r' Inr p by (simp_all add: goodw_def)
    then have "goodfw ts' (f x ts')" using assms(2) r' Inr p by blast
    then have "goodfw ts (f x ts')" using s(1) by (rule goodfw_mono)
    then show ?thesis using r' Inr p by (simp add: seqf_def)
  qed
qed

lemma seqf_sw:
  assumes "goodf ts r"
    and "\<And>x ts'. r = Some (Inr (x, ts')) \<Longrightarrow> suffix ts' ts \<Longrightarrow> eof_ended ts' \<Longrightarrow>
           length ts' < length ts \<Longrightarrow> goodfw ts' (f x ts')"
  shows "goodf ts (seqf r f)"
proof -
  obtain r' where r': "r = Some r'" "good ts r'" using assms(1) by (auto simp: goodf_def)
  show ?thesis
  proof (cases r')
    case (Inl e)
    then show ?thesis using r' by (simp add: seqf_def good_def goodw_def)
  next
    case (Inr p)
    obtain x ts' where p: "p = (x, ts')" by (cases p)
    have s: "suffix ts' ts" "eof_ended ts'" "length ts' < length ts"
      using r' Inr p by (simp_all add: goodw_def good_def)
    then have "goodfw ts' (f x ts')" using assms(2) r' Inr p by blast
    then obtain q where q: "f x ts' = Some q" "goodw ts' q" by (auto simp: goodfw_def)
    have "goodw ts q" using q(2) s(1) by (rule goodw_mono)
    moreover have "length ts'' < length ts" if "q = Inr (y, ts'')" for y ts''
      using q(2) that s(3) suffix_length_le [of ts'' ts'] by (simp add: goodw_def)
    ultimately show ?thesis using r' Inr p q(1) by (simp add: seqf_def good_def)
  qed
qed

lemma step_block:
  assumes S: "\<And>ts. eof_ended ts \<Longrightarrow> 3 * length ts + 1 \<le> k \<Longrightarrow> goodf ts (parseStatement k ts)"
    and B: "\<And>ts acc. eof_ended ts \<Longrightarrow> 3 * length ts + 2 \<le> k \<Longrightarrow> goodf ts (parseBlock k ts acc)"
    and i: "eof_ended ts" and k: "3 * length ts + 2 \<le> Suc k"
  shows "goodf ts (parseBlock (Suc k) ts acc)"
proof -
  obtain t ts1 where ts: "ts = t # ts1" using i by (cases ts) auto
  consider (close) "ttype t = punct \<and> tvalue t = Str ''}''"
    | (eof) "\<not> (ttype t = punct \<and> tvalue t = Str ''}'')" "ttype t = eof"
    | (stmt) "\<not> (ttype t = punct \<and> tvalue t = Str ''}'')" "ttype t \<noteq> eof"
    by blast
  then show ?thesis
  proof cases
    case close
    then have "eof_ended ts1" using i ts by (auto split: if_splits)
    then show ?thesis
      using close by (simp add: ts seqf_def good_def goodw_def suffix_Cons)
  next
    case eof
    then show ?thesis by (simp add: ts good_def goodw_def)
  next
    case stmt
    have "goodf ts (seqf (parseStatement k ts) (\<lambda>s ts'. parseBlock k ts' (acc @ [s])))"
    proof (rule seqf_sw)
      show "goodf ts (parseStatement k ts)" using i k by (intro S) simp_all
    next
      fix x ts'
      assume a: "suffix ts' ts" "eof_ended ts'" "length ts' < length ts"
      have "goodf ts' (parseBlock k ts' (acc @ [x]))"
        using a(2) a(3) k by (intro B) simp_all
      then show "goodfw ts' (parseBlock k ts' (acc @ [x]))" by (rule goodf_weak)
    qed
    then show ?thesis using stmt by (auto simp: ts)
  qed
qed

lemma step_nested:
  assumes B: "\<And>ts acc. eof_ended ts \<Longrightarrow> 3 * length ts + 2 \<le> k \<Longrightarrow> goodf ts (parseBlock k ts acc)"
    and i: "eof_ended ts" and k: "3 * length ts' \<le> Suc k" and s: "suffix ts ts'" "length ts < length ts'"
  shows "goodfw ts (seqf (parseBlock k ts []) (\<lambda>body ts. Some (Inr (mk body, ts))))"
proof (rule seqf_ww)
  have "goodf ts (parseBlock k ts [])" using i k s(2) by (intro B) simp_all
  then show "goodfw ts (parseBlock k ts [])" by (rule goodf_weak)
next
  fix x ts''
  assume "eof_ended ts''"
  then show "goodfw ts'' (Some (Inr (mk x, ts'')))" by (simp add: goodw_def)
qed

lemma step_repeat:
  assumes B: "\<And>ts acc. eof_ended ts \<Longrightarrow> 3 * length ts + 2 \<le> k \<Longrightarrow> goodf ts (parseBlock k ts acc)"
    and i: "eof_ended ts" and k: "3 * length ts \<le> Suc k"
  shows "goodf ts (parseRepeat (Suc k) ts)"
  unfolding parseRepeat.simps
proof (rule seqf_sw)
  show "goodf ts (Some (repeat_head ts))" using i by (simp add: good_repeat_head)
next
  fix count ts1
  assume a: "suffix ts1 ts" "eof_ended ts1" "length ts1 < length ts"
  show "goodfw ts1 (seqf (parseBlock k ts1 []) (\<lambda>body ts. Some (Inr (Repeat count body, ts))))"
    using B a(2) k a(1,3) by (rule step_nested)
qed


lemma step_if:
  assumes B: "\<And>ts acc. eof_ended ts \<Longrightarrow> 3 * length ts + 2 \<le> k \<Longrightarrow> goodf ts (parseBlock k ts acc)"
    and i: "eof_ended ts" and k: "3 * length ts \<le> Suc k"
  shows "goodf ts (parseIf (Suc k) ts)"
  unfolding parseIf.simps
proof (rule seqf_sw)
  show "goodf ts (Some (if_head ts))" using i by (simp add: good_if_head)
next
  fix c ts1
  assume a: "suffix ts1 ts" "eof_ended ts1" "length ts1 < length ts"
  note i1 = a(2)
  show "goodfw ts1
          (seqf (parseBlock k ts1 []) (\<lambda>consequent ts.
             case peek_is ts ident (Str ''else'') of
               Inl e \<Rightarrow> Some (Inl e)
             | Inr True \<Rightarrow>
                 seqf (Some (expect punct (Str ''{'') (snd (next_token ts)))) (\<lambda>_ ts.
                 seqf (parseBlock k ts []) (\<lambda>alternate ts.
                   Some (Inr (If_stmt (condition_text c) consequent (Some alternate), ts))))
             | Inr False \<Rightarrow> Some (Inr (If_stmt (condition_text c) consequent None, ts))))"
  proof (rule seqf_ww)
    have "goodf ts1 (parseBlock k ts1 [])" using i1 k a(3) by (intro B) simp_all
    then show "goodfw ts1 (parseBlock k ts1 [])" by (rule goodf_weak)
  next
    fix consequent ts2
    assume b: "suffix ts2 ts1" "eof_ended ts2"
    note i2 = b(2)
    have l2: "length ts2 < length ts" using a(3) suffix_length_le [OF b(1)] by simp
    obtain u ts3 where ts2: "ts2 = u # ts3" using b(2) by (cases ts2) auto
    show "goodfw ts2
            (case peek_is ts2 ident (Str ''else'') of
               Inl e \<Rightarrow> Some (Inl e)
             | Inr True \<Rightarrow>
                 seqf (Some (expect punct (Str ''{'') (snd (next_token ts2)))) (\<lambda>_ ts.
                 seqf (parseBlock k ts []) (\<lambda>alternate ts.
                   Some (Inr (If_stmt (condition_text c) consequent (Some alternate), ts))))
             | Inr False \<Rightarrow> Some (Inr (If_stmt (condition_text c) consequent None, ts2)))"
    proof (cases "ttype u = ident \<and> tvalue u = Str ''else''")
      case False
      then show ?thesis using b(2) by (auto simp: ts2 goodw_def)
    next
      case True
      then have e3: "eof_ended ts3" using b(2) ts2 by (auto split: if_splits)
      have s3: "suffix ts3 ts2" by (simp add: ts2 suffix_Cons)
      note i3 = e3
      have "goodfw ts3
              (seqf (Some (expect punct (Str ''{'') ts3)) (\<lambda>_ ts.
               seqf (parseBlock k ts []) (\<lambda>alternate ts.
                 Some (Inr (If_stmt (condition_text c) consequent (Some alternate), ts)))))"
      proof (rule seqf_ww)
        show "goodfw ts3 (Some (expect punct (Str ''{'') ts3))"
          using e3 by (simp add: good_expect good_weak)
      next
        fix y ts4
        assume d: "suffix ts4 ts3" "eof_ended ts4"
        have l4: "length ts4 < length ts"
          using l2 suffix_length_le [OF d(1)] by (simp add: ts2)
        have s4: "suffix ts4 ts"
          using d(1) s3 b(1) a(1) by (blast intro: suffix_order.trans)
        show "goodfw ts4 (seqf (parseBlock k ts4 []) (\<lambda>alternate ts.
                 Some (Inr (If_stmt (condition_text c) consequent (Some alternate), ts))))"
          using B d(2) k s4 l4 by (rule step_nested)
      qed
      then have "goodfw ts2
              (seqf (Some (expect punct (Str ''{'') ts3)) (\<lambda>_ ts.
               seqf (parseBlock k ts []) (\<lambda>alternate ts.
                 Some (Inr (If_stmt (condition_text c) consequent (Some alternate), ts)))))"
        using s3 by (rule goodfw_mono)
      then show ?thesis using True by (simp add: ts2)
    qed
  qed
qed

lemma step_statement:
  assumes B: "\<And>ts acc. eof_ended ts \<Longrightarrow> 3 * length ts + 2 \<le> k \<Longrightarrow> goodf ts (parseBlock k ts acc)"
    and R: "\<And>ts. eof_ended ts \<Longrightarrow> 3 * length ts \<le> k \<Longrightarrow> goodf ts (parseRepeat k ts)"
    and I: "\<And>ts. eof_ended ts \<Longrightarrow> 3 * length ts \<le> k \<Longrightarrow> goodf ts (parseIf k ts)"
    and i: "eof_ended ts" and k: "3 * length ts + 1 \<le> Suc k"
  shows "goodf ts (parseStatement (Suc k) ts)"
proof -
  obtain t ts1 where ts: "ts = t # ts1" using i by (cases ts) auto
  note e = i
  show ?thesis
  proof (cases "ttype t = ident")
    case False
    then show ?thesis
      using e by (auto simp: ts good_def goodw_def suffix_Cons split: if_splits)
  next
    case True
    then have e1: "eof_ended ts1" using e ts by (auto split: if_splits)
    have s1: "suffix ts1 ts" by (simp add: ts suffix_Cons)
    note i1 = e1
    have hd: "ttype (hd ts) = ident" using True ts by simp
    have k': "3 * length ts \<le> Suc k" using k by simp
    have loop: "goodf ts
        (seqf (Some (expect punct (Str ''{'') ts1)) (\<lambda>_ ts.
         seqf (parseBlock k ts []) (\<lambda>body ts. Some (Inr (LoopStatement body, ts)))))"
    proof (rule goodfw_tail [of ts1 _ t, folded ts], rule seqf_ww)
      show "goodfw ts1 (Some (expect punct (Str ''{'') ts1))"
        using e1 by (simp add: good_expect good_weak)
    next
      fix y ts2
      assume d: "suffix ts2 ts1" "eof_ended ts2"
      have l2: "length ts2 < length ts" using suffix_length_le [OF d(1)] by (simp add: ts)
      have s2: "suffix ts2 ts" using d(1) s1 by (blast intro: suffix_order.trans)
      show "goodfw ts2 (seqf (parseBlock k ts2 []) (\<lambda>body ts.
              Some (Inr (LoopStatement body, ts))))"
        using B d(2) k' s2 l2 by (rule step_nested)
    qed
    show ?thesis
      using True k loop R [OF i] I [OF i] good_parseEvent [OF e] good_parseAwait [OF e]
        good_parseSimple [OF e hd]
      by (simp add: ts Let_def)
  qed
qed

lemma parser_total:
  "(\<forall>ts. eof_ended ts \<longrightarrow> 3 * length ts + 1 \<le> k \<longrightarrow> goodf ts (parseStatement k ts)) \<and>
   (\<forall>ts acc. eof_ended ts \<longrightarrow> 3 * length ts + 2 \<le> k \<longrightarrow> goodf ts (parseBlock k ts acc)) \<and>
   (\<forall>ts. eof_ended ts \<longrightarrow> 3 * length ts \<le> k \<longrightarrow> goodf ts (parseRepeat k ts)) \<and>
   (\<forall>ts. eof_ended ts \<longrightarrow> 3 * length ts \<le> k \<longrightarrow> goodf ts (parseIf k ts))"
proof (induction k)
  case 0
  then show ?case by auto
next
  case (Suc k)
  show ?case
    using Suc.IH by (intro conjI allI impI step_statement step_block step_repeat step_if) blast+
qed


definition parse_error_ok :: "token list \<Rightarrow> error \<Rightarrow> bool" where
  "parse_error_ok ts e \<longleftrightarrow> parser_error ts e \<or> (e = TypeError \<and> unclosed_condition ts)"

lemma parse_error_ok_suffix: "parse_error_ok ts' e \<Longrightarrow> suffix ts' ts \<Longrightarrow> parse_error_ok ts e"
  unfolding parse_error_ok_def
  using parser_error_mono [OF _ set_mono_suffix] unclosed_condition_suffix by blast

lemma program_total:
  "eof_ended ts \<Longrightarrow> 3 * length ts + 2 \<le> k \<Longrightarrow>
   \<exists>r. parseProgram k ts body = Some r \<and> (case r of Inl e \<Rightarrow> parse_error_ok ts e | Inr p \<Rightarrow> True)"
proof (induction k arbitrary: ts body)
  case 0
  then show ?case by simp
next
  case (Suc k)
  obtain t ts1 where ts: "ts = t # ts1" using Suc.prems(1) by (cases ts) auto
  show ?case
  proof (cases "ttype t = eof")
    case True
    then show ?thesis by (simp add: ts)
  next
    case False
    have "goodf ts (parseStatement k ts)"
      using parser_total [of k] Suc.prems by simp
    then obtain r where r: "parseStatement k ts = Some r" "good ts r"
      by (auto simp: goodf_def)
    show ?thesis
    proof (cases r)
      case (Inl e)
      then show ?thesis using r False by (simp add: ts good_def goodw_def parse_error_ok_def)
    next
      case (Inr p)
      obtain s ts' where p: "p = (s, ts')" by (cases p)
      have a: "suffix ts' ts" "eof_ended ts'" "length ts' < length ts"
        using r(2) Inr p by (simp_all add: good_def goodw_def)
      have "\<exists>r. parseProgram k ts' (body @ [s]) = Some r \<and>
              (case r of Inl e \<Rightarrow> parse_error_ok ts' e | Inr p \<Rightarrow> True)"
        using a(2) a(3) Suc.prems(2) by (intro Suc.IH) simp_all
      then obtain q where q: "parseProgram k ts' (body @ [s]) = Some q"
        "case q of Inl e \<Rightarrow> parse_error_ok ts' e | Inr p \<Rightarrow> True" by blast
      have "case q of Inl e \<Rightarrow> parse_error_ok ts e | Inr p \<Rightarrow> True"
        using q(2) a(1) by (auto intro: parse_error_ok_suffix split: sum.splits)
      then show ?thesis using r(1) Inr p q(1) False by (simp add: ts)
    qed
  qed
qed

lemma tokenize_loop_eof:
  "tokenize_loop input pos tokens = Inr ts \<Longrightarrow> \<exists>pre. ts = pre @ [Token eof Undefined]"
proof (induction input pos tokens rule: tokenize_loop.induct)
  case (1 input pos tokens)
  show ?case
    using "1.prems" "1.IH"
    by (subst (asm) tokenize_loop.simps)
      (auto simp: Let_def split: if_splits option.splits)
qed

lemma tokenize_eof_ended: "tokenize input = Inr ts \<Longrightarrow> eof_ended ts"
  unfolding tokenize_def by (auto simp: eof_ended_def dest: tokenize_loop_eof)

lemma unclosed_call_examples:
  "parse_source ''foo(1'' = Some (Inl (UnexpectedArgToken (Token eof Undefined))) \<and>
   parse_source ''repeat(5'' =
     Some (Inl (ExpectedGot punct (Str '')'') (Token eof Undefined)))"
  by code_simp

text \<open>
  Claim C6, amended. For every token sequence that ends with the end-of-input
  token, as every result of \<^verbatim>\<open>tokenize\<close> does, \<^verbatim>\<open>parse\<close> returns: it yields a
  program, or it fails with one of the parser's own errors, or it fails with a
  \<open>TypeError\<close>, and this only when the sequence has an \<^verbatim>\<open>if (\<close> or an
  \<^verbatim>\<open>await until (\<close> with no \<^verbatim>\<open>)\<close> after it. The error of \<^verbatim>\<open>expect\<close> carries the
  expected type and value and the token found; the errors for an unexpected
  token in a statement, an unknown event and an unexpected argument carry the
  token found; the others carry no token; none carries a position.
\<close>

theorem parse_returns:
  assumes "eof_ended tokens"
  shows "\<exists>r. parse tokens = Some r \<and>
           (case r of
              Inl e \<Rightarrow> parser_error tokens e \<or> (e = TypeError \<and> unclosed_condition tokens)
            | Inr ast \<Rightarrow> True)"
  using program_total [OF assms, of "3 * length tokens + 2" "[]"]
  unfolding parse_def parse_error_ok_def by simp

theorem parse_returns_witness:
  "eof_ended [Token ident (Str ''foo''), Token punct (Str ''(''), Token number (Num (num 1)),
              Token eof Undefined] \<and>
   \<not> unclosed_condition [Token ident (Str ''foo''), Token punct (Str ''(''),
              Token number (Num (num 1)), Token eof Undefined] \<and>
   (\<exists>r. parse [Token ident (Str ''foo''), Token punct (Str ''(''), Token number (Num (num 1)),
              Token eof Undefined] = Some r \<and>
        (case r of
           Inl e \<Rightarrow>
             parser_error [Token ident (Str ''foo''), Token punct (Str ''(''),
               Token number (Num (num 1)), Token eof Undefined] e
         | Inr ast \<Rightarrow> True))"
proof -
  let ?T = "[Token ident (Str ''foo''), Token punct (Str ''(''), Token number (Num (num 1)),
              Token eof Undefined]"
  have h: "eof_ended ?T" by simp
  have n: "\<not> unclosed_condition ?T" by (simp add: cond_start_def)
  obtain r where r: "parse ?T = Some r"
    "case r of Inl e \<Rightarrow> parser_error ?T e \<or> (e = TypeError \<and> unclosed_condition ?T)
       | Inr ast \<Rightarrow> True"
    using parse_returns [OF h] by blast
  have "case r of Inl e \<Rightarrow> parser_error ?T e | Inr ast \<Rightarrow> True"
    using r(2) n by (cases r) simp_all
  then show ?thesis using h n r(1) by blast
qed

subsection \<open>The steps of \<^verbatim>\<open>move\<close>\<close>

text \<open>
  Claim C5. The claim says that a \<open>move\<close> with an argument passes it on as it was
  parsed, \<open>move(0)\<close> giving STEPS = 0. The source computes \<^verbatim>\<open>stmt.args[0] || 10\<close>, and
  0 is falsy: the program \<^verbatim>\<open>move(0);\<close> is compiled to a \<open>motion_movesteps\<close> block with
  STEPS = 10. The blocks are listed in the order of their creation, the first being
  the start hat of the script.
\<close>

theorem move_zero_gets_default:
  "(case parse_source ''move(0);'' of
      Some (Inr ast) \<Rightarrow>
        ast = Program [Call (Str ''move'') [Num (num 0)] Undefined] \<and>
        (case lower sample_uuid ast of
           Inr r \<Rightarrow>
             map (\<lambda>k. map_option (\<lambda>b. (opcode b, inputs b)) (blocks (final r) k))
               (created (final r)) =
             [Some (''event_whenflagclicked'', []),
              Some (''motion_movesteps'',
                    [(''STEPS'', Arr [Num (num 1), Arr [Num (num 4), Num (num 10)]])])]
         | Inl e \<Rightarrow> False)
    | _ \<Rightarrow> False)"
  by code_simp

text \<open>
  In general the first argument is passed on exactly when it is truthy; a missing
  argument, 0 and the empty string all give 10.
\<close>

lemma move_steps:
  "compileStatement uuidv4 (Call (Str ''move'') args for) s =
     Inr (Some (new_id uuidv4 (uuids s)),
          s\<lparr>blocks := (blocks s)(new_id uuidv4 (uuids s) \<mapsto>
               \<lparr>opcode = ''motion_movesteps'',
                inputs = [(''STEPS'', Arr [Num (num 1), Arr [Num (num 4),
                            (if truthy (index args 0) then index args 0 else Num (num 10))]])],
                fields_obj = [], next_id = None, parent = None\<rparr>),
             uuids := Suc (uuids s),
             created := created s @ [new_id uuidv4 (uuids s)]\<rparr>)"
  by (simp add: compileCall_def addBlock_def Let_def or_js_def shadow4_def)

subsection \<open>What a lowering can fail with\<close>

text \<open>
  \<open>live s i\<close>: \<open>i\<close> is \<^verbatim>\<open>null\<close>, the empty string, or the id of a block of \<open>s\<close>. The two
  predicates below say of a result that the only error is the \<^verbatim>\<open>throw\<close> of an
  unhandled statement, that no block is removed, and that the ids returned are
  those of blocks, so that no assignment to \<^verbatim>\<open>blocks[k].next\<close> or
  \<^verbatim>\<open>blocks[k].parent\<close> meets a \<open>k\<close> that is missing.
\<close>

definition live :: "gen_state \<Rightarrow> string option \<Rightarrow> bool" where
  "live s i = (case i of None \<Rightarrow> True | Some k \<Rightarrow> k = [] \<or> k \<in> dom (blocks s))"

definition stmt_ok :: "gen_state \<Rightarrow> error + (string option \<times> gen_state) \<Rightarrow> bool" where
  "stmt_ok s res =
     (case res of
        Inl e \<Rightarrow> e = UnhandledStmtType ''Event''
      | Inr (r, s') \<Rightarrow> dom (blocks s) \<subseteq> dom (blocks s') \<and> live s' r)"

definition loop_ok :: "gen_state \<Rightarrow> error + (compiled \<times> gen_state) \<Rightarrow> bool" where
  "loop_ok s res =
     (case res of
        Inl e \<Rightarrow> e = UnhandledStmtType ''Event''
      | Inr (c, s') \<Rightarrow>
          dom (blocks s) \<subseteq> dom (blocks s') \<and> live s' (first_id c) \<and>
          (blocksOrder c \<noteq> [] \<longrightarrow> truthy_id (first_id c)))"

lemma addBlock_dom:
  "addBlock g opc inp fld nxt par s = (i, s') \<Longrightarrow> dom (blocks s') = insert i (dom (blocks s))"
  by (auto simp: addBlock_def Let_def)

lemma compileCall_dom:
  "compileCall g name args fr s = (i, s') \<Longrightarrow> dom (blocks s') = insert i (dom (blocks s))"
  by (simp add: compileCall_def Let_def addBlock_dom split: if_splits)

lemma set_next_dom: "set_next k v s = Inr s' \<Longrightarrow> dom (blocks s') = dom (blocks s)"
  by (auto simp: set_next_def split: option.splits if_splits)

lemma set_parent_dom: "set_parent k v s = Inr s' \<Longrightarrow> dom (blocks s') = dom (blocks s)"
  by (auto simp: set_parent_def split: option.splits if_splits)

lemma link_dom: "link p v s = Inr s' \<Longrightarrow> dom (blocks s') = dom (blocks s)"
  by (simp add: link_def set_next_dom split: option.splits if_splits)

lemma link_ok: "live s p \<Longrightarrow> \<exists>s'. link p v s = Inr s'"
  by (auto simp: link_def live_def set_next_def split: option.splits)

lemma set_parent_ok: "live s k \<Longrightarrow> truthy_id k \<Longrightarrow> \<exists>s'. set_parent k v s = Inr s'"
  by (auto simp: live_def set_parent_def truthy_id_def split: option.splits)

lemma container_ok:
  assumes "live s (first_id c)" "blocksOrder c \<noteq> [] \<longrightarrow> truthy_id (first_id c)"
  shows "stmt_ok s (container g opc inp c s)"
proof -
  obtain i s1 where a: "addBlock g opc inp [] None None s = (i, s1)" by (cases "addBlock g opc inp [] None None s")
  have d: "dom (blocks s1) = insert i (dom (blocks s))" using a by (rule addBlock_dom)
  show ?thesis
  proof (cases "blocksOrder c = []")
    case True
    then show ?thesis using a d by (auto simp: container_def stmt_ok_def live_def)
  next
    case False
    then have "truthy_id (first_id c)" using assms by simp
    moreover have "live s1 (first_id c)" using assms(1) d by (auto simp: live_def split: option.splits)
    ultimately obtain s2 where p: "set_parent (first_id c) (Some i) s1 = Inr s2"
      using set_parent_ok by blast
    then have "dom (blocks s2) = dom (blocks s1)" by (rule set_parent_dom)
    then show ?thesis using a d p False by (auto simp: container_def stmt_ok_def live_def)
  qed
qed

lemma stmt_ok_mono:
  "stmt_ok s1 r \<Longrightarrow> dom (blocks s) \<subseteq> dom (blocks s1) \<Longrightarrow> stmt_ok s r"
  by (auto simp: stmt_ok_def split: sum.splits)

lemma loop_ok_mono:
  "loop_ok s1 r \<Longrightarrow> dom (blocks s) \<subseteq> dom (blocks s1) \<Longrightarrow> loop_ok s r"
  by (auto simp: loop_ok_def split: sum.splits)

lemma live_mono: "live s i \<Longrightarrow> dom (blocks s) \<subseteq> dom (blocks s1) \<Longrightarrow> live s1 i"
  by (auto simp: live_def split: option.splits)

lemma nested_ok:
  assumes "loop_ok s0 (compileStatements g body s0)" "dom (blocks s) \<subseteq> dom (blocks s0)"
  shows "stmt_ok s (case compileStatements g body s0 of
            Inl e \<Rightarrow> Inl e
          | Inr (bodyFirst, s1) \<Rightarrow> container g opc (inp bodyFirst) bodyFirst s1)"
proof (cases "compileStatements g body s0")
  case (Inl e)
  then show ?thesis using assms by (simp add: loop_ok_def stmt_ok_def)
next
  case (Inr r)
  obtain c s1 where r: "r = (c, s1)" by (cases r)
  have c: "dom (blocks s0) \<subseteq> dom (blocks s1)" "live s1 (first_id c)"
    "blocksOrder c \<noteq> [] \<longrightarrow> truthy_id (first_id c)"
    using assms(1) Inr r by (simp_all add: loop_ok_def)
  have "stmt_ok s1 (container g opc (inp c) c s1)"
    using c(2,3) by (rule container_ok)
  then have "stmt_ok s (container g opc (inp c) c s1)"
    using c(1) assms(2) by (blast intro: stmt_ok_mono)
  then show ?thesis using Inr r by simp
qed

lemma lowering_ok:
  "stmt_ok s (compileStatement g x s)"
  "loop_ok s (compileStatements g xs s)"
  "live s f \<Longrightarrow> live s p \<Longrightarrow> (order \<noteq> [] \<longrightarrow> truthy_id f) \<Longrightarrow> loop_ok s (compile_loop g xs order f p s)"
proof (induction g x s and g xs s and g xs order f p s rule: compileStatement_compileStatements_compile_loop.induct)
  case (1 uuidv4 name args fr s)
  then show ?case by (auto simp: stmt_ok_def live_def dest: compileCall_dom split: prod.splits)
next
  case (2 uuidv4 count body s)
  have "stmt_ok s (case compileStatements uuidv4 body (s\<lparr>uuids := Suc (uuids s)\<rparr>) of
            Inl e \<Rightarrow> Inl e
          | Inr (bodyFirst, s1) \<Rightarrow>
              container uuidv4 ''control_repeat''
                ((\<lambda>c. [(''TIMES'', shadow4 count), (''SUBSTACK'', Arr [Num (num 2), ref (first_id c)])]) bodyFirst)
                bodyFirst s1)"
    by (rule nested_ok [OF "2.IH"]) simp
  then show ?case by simp
next
  case (3 uuidv4 s)
  then show ?case by (auto simp: stmt_ok_def live_def dest: addBlock_dom split: prod.splits)
next
  case (4 uuidv4 s)
  then show ?case by (auto simp: stmt_ok_def live_def dest: addBlock_dom split: prod.splits)
next
  case (5 uuidv4 name s)
  then show ?case by (auto simp: stmt_ok_def live_def dest: addBlock_dom split: prod.splits)
next
  case (6 uuidv4 k s)
  then show ?case by (simp add: stmt_ok_def)
next
  case (7 uuidv4 body s)
  have "stmt_ok s (case compileStatements uuidv4 body s of
            Inl e \<Rightarrow> Inl e
          | Inr (bodyFirst, s1) \<Rightarrow>
              container uuidv4 ''control_forever''
                ((\<lambda>c. [(''SUBSTACK'', Arr [Num (num 2), ref (first_id c)])]) bodyFirst)
                bodyFirst s1)"
    by (rule nested_ok [OF "7.IH"]) simp
  then show ?case by simp
next
  case (8 uuidv4 condition consequent alternate s)
  have "stmt_ok s (case compileStatements uuidv4 consequent s of
            Inl e \<Rightarrow> Inl e
          | Inr (bodyFirst, s1) \<Rightarrow>
              container uuidv4 ''control_if''
                ((\<lambda>c. [(''CONDITION'', Arr [Num (num 1), Str condition]),
                       (''SUBSTACK'', Arr [Num (num 2), ref (first_id c)])]) bodyFirst)
                bodyFirst s1)"
    by (rule nested_ok [OF "8.IH"]) simp
  then show ?case by simp
next
  case (9 uuidv4 condition s)
  then show ?case by (auto simp: stmt_ok_def live_def dest: addBlock_dom split: prod.splits)
next
  case (10 uuidv4 s)
  then show ?case by (simp add: stmt_ok_def live_def)
next
  case (11 uuidv4 stmts s)
  then show ?case by (simp add: live_def)
next
  case (12 uuidv4 order firstId prevId s)
  then show ?case by (simp add: loop_ok_def)
next
  case (13 uuidv4 x xs order firstId prevId s)
  note IH = "13.IH" and pre = "13.prems"
  show ?case
  proof (cases "compileStatement uuidv4 x s")
    case (Inl e)
    then show ?thesis using IH(1) by (simp add: stmt_ok_def loop_ok_def)
  next
    case (Inr r)
    obtain bid s1 where r: "r = (bid, s1)" by (cases r)
    have s1: "dom (blocks s) \<subseteq> dom (blocks s1)" "live s1 bid"
      using IH(1) Inr r by (simp_all add: stmt_ok_def)
    have f1: "live s1 firstId" and p1: "live s1 prevId"
      using pre s1(1) by (blast intro: live_mono)+
    show ?thesis
    proof (cases "truthy_id bid")
      case False
      then have eq: "compile_loop uuidv4 (x # xs) order firstId prevId s =
                 compile_loop uuidv4 xs order firstId prevId s1"
        using Inr r by (auto simp: truthy_id_def split: option.splits)
      have "loop_ok s1 (compile_loop uuidv4 xs order firstId prevId s1)"
      proof (cases bid)
        case None
        show ?thesis by (rule IH(2) [OF Inr r [symmetric] None f1 p1 pre(3)])
      next
        case (Some i)
        then have "i = []" using False by (simp add: truthy_id_def)
        show ?thesis by (rule IH(3) [OF Inr r [symmetric] Some \<open>i = []\<close> f1 p1 pre(3)])
      qed
      then have "loop_ok s (compile_loop uuidv4 xs order firstId prevId s1)"
        using s1(1) by (rule loop_ok_mono)
      then show ?thesis by (simp only: eq)
    next
      case True
      then obtain i where i: "bid = Some i" "i \<noteq> []"
        by (auto simp: truthy_id_def split: option.splits)
      obtain s2 where l: "link prevId bid s1 = Inr s2" using link_ok [OF p1] by blast
      have d2: "dom (blocks s2) = dom (blocks s1)" using l by (rule link_dom)
      let ?f = "if \<not> truthy_id firstId then bid else firstId"
      have "live s2 ?f" "live s2 bid" "order @ [i] \<noteq> [] \<longrightarrow> truthy_id ?f"
        using f1 s1(2) d2 True by (auto simp: live_def split: option.splits)
      then have "loop_ok s2 (compile_loop uuidv4 xs (order @ [i]) ?f bid s2)"
        by (rule IH(4) [OF Inr r [symmetric] i l])
      moreover have "dom (blocks s) \<subseteq> dom (blocks s2)" using s1(1) d2 by simp
      ultimately have "loop_ok s (compile_loop uuidv4 xs (order @ [i]) ?f bid s2)"
        by (rule loop_ok_mono)
      moreover have "compile_loop uuidv4 (x # xs) order firstId prevId s =
                 compile_loop uuidv4 xs (order @ [i]) ?f bid s2"
        using Inr r i l by simp
      ultimately show ?thesis by (simp only:)
    qed
  qed
qed

lemma key_event_loop_fails:
  "Event (Key k) \<in> set xs \<Longrightarrow> \<exists>e. compile_loop g xs order f p s = Inl e"
proof (induction xs arbitrary: order f p s)
  case Nil
  then show ?case by simp
next
  case (Cons x xs)
  show ?case
  proof (cases "x = Event (Key k)")
    case True
    then show ?thesis by simp
  next
    case False
    then have "Event (Key k) \<in> set xs" using Cons.prems by simp
    then have "\<exists>e. compile_loop g xs order' f' p' s' = Inl e" for order' f' p' s'
      by (rule Cons.IH)
    then show ?thesis
      by (auto split: sum.splits option.splits prod.splits)
  qed
qed

lemma top_loop_ok:
  "top_loop g body nodes scr s = Inl e \<Longrightarrow> e = UnhandledStmtType ''Event''"
proof (induction nodes arbitrary: scr s)
  case Nil
  then show ?case by simp
next
  case (Cons node nodes)
  show ?case
  proof (cases "is_Event node")
    case True
    then show ?thesis
      using Cons.prems Cons.IH lowering_ok(1) [of s g node]
      by (auto simp: stmt_ok_def split: sum.splits prod.splits)
  next
    case False
    obtain hat s1 where a: "addBlock g ''event_whenflagclicked'' [] [] None None s = (hat, s1)"
      by (cases "addBlock g ''event_whenflagclicked'' [] [] None None s")
    have h: "hat \<in> dom (blocks s1)" using addBlock_dom [OF a] by simp
    show ?thesis
    proof (cases "compileStatements g body s1")
      case (Inl e')
      then show ?thesis
        using Cons.prems False a lowering_ok(2) [of s1 g body] by (simp add: loop_ok_def)
    next
      case (Inr r)
      obtain c s2 where r: "r = (c, s2)" by (cases r)
      have "dom (blocks s1) \<subseteq> dom (blocks s2)"
        using lowering_ok(2) [of s1 g body] Inr r by (simp add: loop_ok_def)
      then have "hat \<in> dom (blocks s2)" using h by blast
      then obtain s3 where "set_next hat (first_id c) s2 = Inr s3"
        by (auto simp: set_next_def)
      then show ?thesis
        using Cons.prems False a Inr r by (auto split: if_splits)
    qed
  qed
qed

lemma top_loop_key_fails:
  assumes "Event (Key k) \<in> set body"
  shows "Event (Key k) \<in> set nodes \<or> (\<exists>n\<in>set nodes. \<not> is_Event n) \<Longrightarrow>
         \<exists>e. top_loop g body nodes scr s = Inl e"
proof (induction nodes arbitrary: scr s)
  case Nil
  then show ?case by simp
next
  case (Cons node nodes)
  show ?case
  proof (cases "is_Event node")
    case False
    obtain hat s1 where a: "addBlock g ''event_whenflagclicked'' [] [] None None s = (hat, s1)"
      by (cases "addBlock g ''event_whenflagclicked'' [] [] None None s")
    obtain e where "compileStatements g body s1 = Inl e"
      using key_event_loop_fails [OF assms, of g "[]" None None s1] by auto
    then show ?thesis using False a by simp
  next
    case True
    show ?thesis
    proof (cases "node = Event (Key k)")
      case k: True
      then show ?thesis using True by simp
    next
      case False
      then have "Event (Key k) \<in> set nodes \<or> (\<exists>n\<in>set nodes. \<not> is_Event n)"
        using Cons.prems True by auto
      then have "\<exists>e. top_loop g body nodes scr' s' = Inl e" for scr' s'
        by (rule Cons.IH)
      then show ?thesis using True by (auto split: sum.splits prod.splits)
    qed
  qed
qed

subsection \<open>An \<^verbatim>\<open>Event\<close> of kind \<^verbatim>\<open>key\<close>\<close>

text \<open>
  Claim C3, as the specification states it, says that lowering a tree with an
  \<open>Event\<close> of kind \<open>key\<close> does not fail and skips the statement. On the code the
  statement reaches the last line of \<^verbatim>\<open>compileStatement\<close>: the program
  \<^verbatim>\<open>move(10); on key(a); move(20);\<close> parses, and its lowering throws
  "Unhandled stmt type Event".
\<close>

theorem key_event_counterexample:
  "(case parse_source ''move(10); on key(a); move(20);'' of
      Some (Inr ast) \<Rightarrow>
        ast = Program [Call (Str ''move'') [Num (num 10)] Undefined, Event (Key (Str ''a'')),
                       Call (Str ''move'') [Num (num 20)] Undefined] \<and>
        (case lower sample_uuid ast of
           Inl e \<Rightarrow> e = UnhandledStmtType ''Event''
         | Inr r \<Rightarrow> False)
    | _ \<Rightarrow> False)"
  by code_simp

text \<open>
  Claim C3, amended. Lowering a statement \<open>Event\<close> of kind \<open>key\<close> throws the error
  "Unhandled stmt type Event" and creates no block for it; so does the lowering of
  every statement list that has such a statement among its members, and of every
  program that has one among its top-level statements.
\<close>

theorem key_event_unhandled:
  "compileStatement g (Event (Key k)) s = Inl (UnhandledStmtType ''Event'') \<and>
   (Event (Key k) \<in> set stmts \<longrightarrow>
      compileStatements g stmts s = Inl (UnhandledStmtType ''Event'')) \<and>
   (Event (Key k) \<in> set body \<longrightarrow>
      lower g (Program body) = Inl (UnhandledStmtType ''Event''))"
proof (intro conjI impI)
  show "compileStatement g (Event (Key k)) s = Inl (UnhandledStmtType ''Event'')" by simp
next
  assume "Event (Key k) \<in> set stmts"
  then obtain e where e: "compileStatements g stmts s = Inl e"
    using key_event_loop_fails [of k stmts g "[]" None None s] by auto
  then show "compileStatements g stmts s = Inl (UnhandledStmtType ''Event'')"
    using lowering_ok(2) [of s g stmts] by (simp add: loop_ok_def)
next
  assume k: "Event (Key k) \<in> set body"
  then obtain e where e: "top_loop g body body [] init_state = Inl e"
    using top_loop_key_fails [OF k, of body g "[]" init_state] by auto
  then have "e = UnhandledStmtType ''Event''" by (rule top_loop_ok)
  then show "lower g (Program body) = Inl (UnhandledStmtType ''Event'')"
    using e by (simp add: lower_def)
qed

theorem key_event_unhandled_witness:
  "Event (Key (Str ''a'')) \<in>
     set [Call (Str ''move'') [Num (num 10)] Undefined, Event (Key (Str ''a'')),
          Call (Str ''move'') [Num (num 20)] Undefined] \<and>
   compileStatements sample_uuid
     [Call (Str ''move'') [Num (num 10)] Undefined, Event (Key (Str ''a'')),
      Call (Str ''move'') [Num (num 20)] Undefined] init_state =
     Inl (UnhandledStmtType ''Event'') \<and>
   Event (Key (Str ''a'')) \<in> set [Event Start, Event (Key (Str ''a''))] \<and>
   lower sample_uuid (Program [Event Start, Event (Key (Str ''a''))]) =
     Inl (UnhandledStmtType ''Event'')"
  using key_event_unhandled [of sample_uuid "Str ''a''" init_state
      "[Call (Str ''move'') [Num (num 10)] Undefined, Event (Key (Str ''a'')),
        Call (Str ''move'') [Num (num 20)] Undefined]"
      "[Event Start, Event (Key (Str ''a''))]"]
  by simp

subsection \<open>A \<^verbatim>\<open>turn\<close> with another direction\<close>

text \<open>
  Claim C4, as the specification states it, says that a \<open>turn\<close> whose first argument
  is none of \<open>right\<close>, \<open>lef\<close>, \<open>left\<close> gives no block and that the chain skips it. On
  the code the statement leaves the \<^verbatim>\<open>turn\<close> branch without returning and falls
  through to the last line of the \<^verbatim>\<open>Call\<close> branch: in \<^verbatim>\<open>move(10); turn(up, 15); move(20);\<close>
  it becomes a \<open>procedures_call\<close> block that stands in the chain between the two
  \<open>motion_movesteps\<close> blocks.
\<close>

theorem turn_other_direction_counterexample:
  "(case compileStatements sample_uuid
           [Call (Str ''move'') [Num (num 10)] Undefined,
            Call (Str ''turn'') [Str ''up'', Num (num 15)] Undefined,
            Call (Str ''move'') [Num (num 20)] Undefined] init_state of
      Inr (c, s) \<Rightarrow>
        blocksOrder c = [''00000000000040008000'', ''00000001000040008000'', ''00000002000040008000''] \<and>
        map (\<lambda>k. map_option (\<lambda>b. (opcode b, next_id b)) (blocks s k)) (blocksOrder c) =
          [Some (''motion_movesteps'', Some ''00000001000040008000''),
           Some (''procedures_call'', Some ''00000002000040008000''),
           Some (''motion_movesteps'', None)]
    | Inl e \<Rightarrow> False)"
  by code_simp

text \<open>
  Claim C4, amended. For every \<open>Call\<close> named \<open>turn\<close> whose first argument is none of
  \<open>right\<close>, \<open>lef\<close>, \<open>left\<close>, lowering creates a \<open>procedures_call\<close> block with no
  inputs, the fallback of an unrecognised call. In a statement list the block is
  part of the chain: its id is appended to \<^verbatim>\<open>order\<close>, the \<^verbatim>\<open>next\<close> of the block of
  the preceding statement \<open>p\<close> is set to it, and it becomes \<^verbatim>\<open>prevId\<close>, the block
  after which the following statement's block is linked.
\<close>

theorem turn_other_direction:
  assumes "index args 0 \<noteq> Str ''right''" "index args 0 \<noteq> Str ''lef''"
    "index args 0 \<noteq> Str ''left''"
  shows
  "(let i = new_id g (uuids s);
        b = \<lparr>opcode = ''procedures_call'', inputs = [], fields_obj = [], next_id = None,
             parent = None\<rparr>
    in compileStatement g (Call (Str ''turn'') args fr) s =
         Inr (Some i, s\<lparr>blocks := (blocks s)(i \<mapsto> b), uuids := Suc (uuids s),
                        created := created s @ [i]\<rparr>) \<and>
       (i \<noteq> [] \<and> p \<noteq> [] \<and> p \<noteq> i \<and> blocks s p = Some bp \<longrightarrow>
          compile_loop g (Call (Str ''turn'') args fr # xs) order firstId (Some p) s =
          compile_loop g xs (order @ [i]) (if truthy_id firstId then firstId else Some i) (Some i)
            (s\<lparr>uuids := Suc (uuids s), created := created s @ [i],
               blocks := (blocks s)(i \<mapsto> b, p \<mapsto> bp\<lparr>next_id := Some i\<rparr>)\<rparr>)))"
  using assms
  by (auto simp: Let_def compileCall_def addBlock_def link_def set_next_def)

theorem turn_other_direction_witness:
  "index [Str ''up'', Num (num 15)] 0 \<noteq> Str ''right'' \<and>
   index [Str ''up'', Num (num 15)] 0 \<noteq> Str ''lef'' \<and>
   index [Str ''up'', Num (num 15)] 0 \<noteq> Str ''left'' \<and>
   compileStatement sample_uuid (Call (Str ''turn'') [Str ''up'', Num (num 15)] Undefined)
     init_state =
     Inr (Some ''00000000000040008000'',
          \<lparr>blocks = [''00000000000040008000'' \<mapsto>
             \<lparr>opcode = ''procedures_call'', inputs = [], fields_obj = [], next_id = None,
              parent = None\<rparr>],
           uuids = 1, created = [''00000000000040008000'']\<rparr>)"
proof -
  have h: "index [Str ''up'', Num (num 15)] 0 \<noteq> Str ''right''"
    "index [Str ''up'', Num (num 15)] 0 \<noteq> Str ''lef''"
    "index [Str ''up'', Num (num 15)] 0 \<noteq> Str ''left''"
    by (simp_all add: index_def)
  have i: "new_id sample_uuid 0 = ''00000000000040008000''" by code_simp
  show ?thesis
    using h turn_other_direction [OF h, of sample_uuid init_state Undefined]
    by (simp add: Let_def i init_state_def)
qed

subsection \<open>Relations that every step of the lowering preserves\<close>

text \<open>
  The lowering changes the state in four ways only: \<^verbatim>\<open>addBlock\<close>, a call of \<^verbatim>\<open>uuidv4\<close>
  whose result is dropped, and an assignment to the \<^verbatim>\<open>next\<close> or the \<^verbatim>\<open>parent\<close> of a
  block that exists. A reflexive and transitive relation that holds across each
  of them holds between the state before and the state after a lowering.
\<close>

definition step_closed :: "(nat \<Rightarrow> string) \<Rightarrow> (gen_state \<Rightarrow> gen_state \<Rightarrow> bool) \<Rightarrow> bool" where
  "step_closed g R \<longleftrightarrow>
     (\<forall>s. R s s) \<and> (\<forall>a b c. R a b \<longrightarrow> R b c \<longrightarrow> R a c) \<and>
     (\<forall>opc inp fld n p s. R s (snd (addBlock g opc inp fld n p s))) \<and>
     (\<forall>s. R s (s\<lparr>uuids := Suc (uuids s)\<rparr>)) \<and>
     (\<forall>s k b. blocks s k \<noteq> None \<longrightarrow> R s (s\<lparr>blocks := (blocks s)(k \<mapsto> b)\<rparr>))"

lemma step_closedD:
  assumes "step_closed g R"
  shows "R s s" and "R a b \<Longrightarrow> R b c \<Longrightarrow> R a c"
    and "addBlock g opc inp fld n p s = (i, s1) \<Longrightarrow> R s s1"
    and "R s (s\<lparr>uuids := Suc (uuids s)\<rparr>)"
    and "set_next k v s = Inr s1 \<Longrightarrow> R s s1"
    and "set_parent k' v s = Inr s1 \<Longrightarrow> R s s1"
    and "link p' v s = Inr s1 \<Longrightarrow> R s s1"
    and "compileCall g name args fr s = (i, s1) \<Longrightarrow> R s s1"
proof -
  show r: "R s s" for s using assms by (simp add: step_closed_def)
  show "R a b \<Longrightarrow> R b c \<Longrightarrow> R a c" using assms unfolding step_closed_def by blast
  show a: "R s s1" if "addBlock g opc inp fld n p s = (i, s1)" for opc inp fld n p s i s1
    using assms that unfolding step_closed_def by (metis snd_conv)
  show "R s (s\<lparr>uuids := Suc (uuids s)\<rparr>)" using assms by (simp add: step_closed_def)
  have u: "R s (s\<lparr>blocks := (blocks s)(k \<mapsto> b)\<rparr>)" if "blocks s k \<noteq> None" for s k b
    using assms that by (simp add: step_closed_def)
  show n: "R s s1" if "set_next k v s = Inr s1" for k v s s1
    using that u [of s k] by (auto simp: set_next_def split: option.splits)
  show "set_parent k' v s = Inr s1 \<Longrightarrow> R s s1"
    using u [of s] by (auto simp: set_parent_def split: option.splits)
  show "link p' v s = Inr s1 \<Longrightarrow> R s s1"
    using n r by (auto simp: link_def split: option.splits if_splits)
  show "compileCall g name args fr s = (i, s1) \<Longrightarrow> R s s1"
    using a by (auto simp: compileCall_def Let_def split: if_splits)
qed

lemma container_rel:
  assumes "step_closed g R" "container g opc inp c s = Inr (r, s')"
  shows "R s s'"
proof -
  obtain i s1 where a: "addBlock g opc inp [] None None s = (i, s1)"
    by (cases "addBlock g opc inp [] None None s")
  have 1: "R s s1" using assms(1) a by (rule step_closedD(3))
  show ?thesis
  proof (cases "blocksOrder c = []")
    case True
    then show ?thesis using assms(2) a 1 by (simp add: container_def)
  next
    case False
    then obtain s2 where p: "set_parent (first_id c) (Some i) s1 = Inr s2" and s': "s' = s2"
      using assms(2) a by (auto simp: container_def split: sum.splits)
    have "R s1 s2" using assms(1) p by (rule step_closedD(6))
    then show ?thesis using 1 s' step_closedD(2) [OF assms(1)] by blast
  qed
qed

lemma lowering_rel:
  "step_closed g R \<Longrightarrow> compileStatement g x s = Inr (r, s') \<Longrightarrow> R s s'"
  "step_closed g R \<Longrightarrow> compileStatements g xs s = Inr (c, s') \<Longrightarrow> R s s'"
  "step_closed g R \<Longrightarrow> compile_loop g xs order f p s = Inr (c, s') \<Longrightarrow> R s s'"
proof (induction g x s and g xs s and g xs order f p s
    arbitrary: r s' and c s' and c s'
    rule: compileStatement_compileStatements_compile_loop.induct)
  case (1 uuidv4 name args fr s)
  then show ?case by (auto split: prod.splits dest: step_closedD(8))
next
  case (2 uuidv4 count body s)
  from "2.prems"(2) obtain bf s1 where
    b: "compileStatements uuidv4 body (s\<lparr>uuids := Suc (uuids s)\<rparr>) = Inr (bf, s1)"
    and c: "container uuidv4 ''control_repeat''
            [(''TIMES'', shadow4 count), (''SUBSTACK'', Arr [Num (num 2), ref (first_id bf)])]
            bf s1 = Inr (r, s')"
    by (auto simp del: compileStatements.simps split: sum.splits)
  have "R (s\<lparr>uuids := Suc (uuids s)\<rparr>) s1" using "2.prems"(1) b by (rule "2.IH")
  moreover have "R s1 s'" using "2.prems"(1) c by (rule container_rel)
  moreover have "R s (s\<lparr>uuids := Suc (uuids s)\<rparr>)" using "2.prems"(1) by (rule step_closedD(4))
  ultimately show ?case using step_closedD(2) [OF "2.prems"(1)] by blast
next
  case (3 uuidv4 s)
  then show ?case by (auto split: prod.splits dest: step_closedD(3))
next
  case (4 uuidv4 s)
  then show ?case by (auto split: prod.splits dest: step_closedD(3))
next
  case (5 uuidv4 name s)
  then show ?case by (auto split: prod.splits dest: step_closedD(3))
next
  case (6 uuidv4 k s)
  then show ?case by simp
next
  case (7 uuidv4 body s)
  from "7.prems"(2) obtain bf s1 where
    b: "compileStatements uuidv4 body s = Inr (bf, s1)"
    and c: "container uuidv4 ''control_forever''
            [(''SUBSTACK'', Arr [Num (num 2), ref (first_id bf)])] bf s1 = Inr (r, s')"
    by (auto simp del: compileStatements.simps split: sum.splits)
  have "R s s1" using "7.prems"(1) b by (rule "7.IH")
  moreover have "R s1 s'" using "7.prems"(1) c by (rule container_rel)
  ultimately show ?case using step_closedD(2) [OF "7.prems"(1)] by blast
next
  case (8 uuidv4 condition consequent alternate s)
  from "8.prems"(2) obtain bf s1 where
    b: "compileStatements uuidv4 consequent s = Inr (bf, s1)"
    and c: "container uuidv4 ''control_if''
            [(''CONDITION'', Arr [Num (num 1), Str condition]),
             (''SUBSTACK'', Arr [Num (num 2), ref (first_id bf)])] bf s1 = Inr (r, s')"
    by (auto simp del: compileStatements.simps split: sum.splits)
  have "R s s1" using "8.prems"(1) b by (rule "8.IH")
  moreover have "R s1 s'" using "8.prems"(1) c by (rule container_rel)
  ultimately show ?case using step_closedD(2) [OF "8.prems"(1)] by blast
next
  case (9 uuidv4 condition s)
  then show ?case by (auto split: prod.splits dest: step_closedD(3))
next
  case (10 uuidv4 s)
  then show ?case by (auto dest: step_closedD(1))
next
  case (11 uuidv4 stmts s)
  then show ?case by simp
next
  case (12 uuidv4 order firstId prevId s)
  then show ?case by (auto dest: step_closedD(1))
next
  case (13 uuidv4 x xs order firstId prevId s)
  note sc = "13.prems"(1) and run = "13.prems"(2) and IH = "13.IH"
  note tr = step_closedD(2) [OF sc]
  from run obtain bid s1 where x: "compileStatement uuidv4 x s = Inr (bid, s1)"
    by (auto split: sum.splits)
  have 1: "R s s1" using sc x by (rule IH(1))
  show ?case
  proof (cases "truthy_id bid")
    case False
    then have eq: "compile_loop uuidv4 xs order firstId prevId s1 = Inr (c, s')"
      using run x by (auto simp: truthy_id_def split: option.splits)
    have "R s1 s'"
    proof (cases bid)
      case None
      show ?thesis by (rule IH(2) [OF x refl None sc eq])
    next
      case (Some i)
      then have "i = []" using False by (simp add: truthy_id_def)
      show ?thesis by (rule IH(3) [OF x refl Some \<open>i = []\<close> sc eq])
    qed
    then show ?thesis using 1 tr by blast
  next
    case True
    then obtain i where i: "bid = Some i" "i \<noteq> []"
      by (auto simp: truthy_id_def split: option.splits)
    from run x i obtain s2 where l: "link prevId bid s1 = Inr s2"
      and eq: "compile_loop uuidv4 xs (order @ [i])
                 (if \<not> truthy_id firstId then bid else firstId) bid s2 = Inr (c, s')"
      by (auto split: sum.splits)
    have 2: "R s1 s2" using sc l by (rule step_closedD(7))
    have "R s2 s'" by (rule IH(4) [OF x refl i l sc eq])
    then show ?thesis using 1 2 tr by blast
  qed
qed


lemma top_loop_rel:
  "step_closed g R \<Longrightarrow> top_loop g body nodes scr s = Inr r \<Longrightarrow> R s (final r)"
proof (induction nodes arbitrary: scr s)
  case Nil
  then show ?case by (auto dest: step_closedD(1))
next
  case (Cons node nodes)
  note sc = Cons.prems(1) and run = Cons.prems(2)
  note tr = step_closedD(2) [OF sc]
  show ?case
  proof (cases "is_Event node")
    case True
    then obtain hatId s1 where x: "compileStatement g node s = Inr (hatId, s1)"
      and rest: "top_loop g body nodes (scr @ [hatId]) s1 = Inr r"
      using run by (auto split: sum.splits)
    have "R s s1" using sc x by (rule lowering_rel(1))
    moreover have "R s1 (final r)" using sc rest by (rule Cons.IH)
    ultimately show ?thesis using tr by blast
  next
    case False
    obtain hat s1 where a: "addBlock g ''event_whenflagclicked'' [] [] None None s = (hat, s1)"
      by (cases "addBlock g ''event_whenflagclicked'' [] [] None None s")
    obtain c s2 where b: "compileStatements g body s1 = Inr (c, s2)"
      using run False a by (auto simp del: compileStatements.simps split: sum.splits)
    have 1: "R s s1" using sc a by (rule step_closedD(3))
    have 2: "R s1 s2" using sc b by (rule lowering_rel(2))
    show ?thesis
    proof (cases "truthy_id (first_id c)")
      case f: False
      then have "final r = s2" using run False a b by auto
      then show ?thesis using 1 2 tr by blast
    next
      case t: True
      then obtain s3 where n: "set_next hat (first_id c) s2 = Inr s3" and "final r = s3"
        using run False a b by (auto split: sum.splits)
      moreover have "R s2 s3" using sc n by (rule step_closedD(5))
      ultimately show ?thesis using 1 2 tr by metis
    qed
  qed
qed

subsection \<open>Identifiers of the blocks\<close>

text \<open>
  \<open>ext g s s'\<close>: from \<open>s\<close> to \<open>s'\<close> the history of created ids grew by the truncated
  UUIDs of some of the calls of \<^verbatim>\<open>uuidv4\<close> made in between, each call used for at
  most one block and in the order of the calls, and the object \<^verbatim>\<open>blocks\<close> gained
  exactly these keys.
\<close>

definition ext :: "(nat \<Rightarrow> string) \<Rightarrow> gen_state \<Rightarrow> gen_state \<Rightarrow> bool" where
  "ext g s s' \<longleftrightarrow>
     uuids s \<le> uuids s' \<and>
     (\<exists>ks. created s' = created s @ map (new_id g) ks \<and> sorted_wrt (<) ks \<and>
           set ks \<subseteq> {uuids s..<uuids s'} \<and>
           dom (blocks s') = dom (blocks s) \<union> new_id g ` set ks)"

lemma ext_refl: "ext g s s"
  by (auto simp: ext_def intro: exI [of _ "[]"])

lemma ext_trans:
  assumes "ext g a b" "ext g b c"
  shows "ext g a c"
proof -
  obtain ks1 where 1: "created b = created a @ map (new_id g) ks1" "sorted_wrt (<) ks1"
    "set ks1 \<subseteq> {uuids a..<uuids b}" "dom (blocks b) = dom (blocks a) \<union> new_id g ` set ks1"
    using assms(1) by (auto simp: ext_def)
  obtain ks2 where 2: "created c = created b @ map (new_id g) ks2" "sorted_wrt (<) ks2"
    "set ks2 \<subseteq> {uuids b..<uuids c}" "dom (blocks c) = dom (blocks b) \<union> new_id g ` set ks2"
    using assms(2) by (auto simp: ext_def)
  have le: "uuids a \<le> uuids b" "uuids b \<le> uuids c" using assms by (simp_all add: ext_def)
  have "created c = created a @ map (new_id g) (ks1 @ ks2)" using 1(1) 2(1) by simp
  moreover have "sorted_wrt (<) (ks1 @ ks2)"
    using 1(2,3) 2(2,3) by (fastforce simp: sorted_wrt_append)
  moreover have "set (ks1 @ ks2) \<subseteq> {uuids a..<uuids c}"
    using 1(3) 2(3) le by fastforce
  moreover have "dom (blocks c) = dom (blocks a) \<union> new_id g ` set (ks1 @ ks2)"
    using 1(4) 2(4) by auto
  ultimately show ?thesis using le unfolding ext_def by (meson order_trans)
qed

lemma ext_closed: "step_closed g (ext g)"
  unfolding step_closed_def
proof (intro conjI allI impI)
  show "ext g s s" for s by (rule ext_refl)
  show "ext g a c" if "ext g a b" "ext g b c" for a b c using that by (rule ext_trans)
  show "ext g s (snd (addBlock g opc inp fld n p s))" for opc inp fld n p s
    by (auto simp: ext_def addBlock_def Let_def intro!: exI [of _ "[uuids s]"])
  show "ext g s (s\<lparr>uuids := Suc (uuids s)\<rparr>)" for s
    by (auto simp: ext_def intro!: exI [of _ "[]"])
  show "ext g s (s\<lparr>blocks := (blocks s)(k \<mapsto> b)\<rparr>)" if "blocks s k \<noteq> None" for s k b
    using that by (auto simp: ext_def intro!: exI [of _ "[]"])
qed

text \<open>
  Claim C8, as the specification states it, says that no two blocks of one
  compilation ever get the same id. The id is the first 20 hexadecimal digits of a
  random UUID, and nothing in the code compares it with the ids in use. The three
  UUIDs of \<open>tail_uuid\<close> below are pairwise distinct, and the three blocks of
  \<^verbatim>\<open>move(10); move(20);\<close> (the start hat and two \<open>motion_movesteps\<close>) all get the id
  \<open>00000000000040008000\<close>.
\<close>

theorem created_ids_counterexample:
  "distinct (map tail_uuid [0, 1, 2]) \<and>
   (case lower tail_uuid
           (Program [Call (Str ''move'') [Num (num 10)] Undefined,
                     Call (Str ''move'') [Num (num 20)] Undefined]) of
      Inl e \<Rightarrow> False
    | Inr r \<Rightarrow>
        created (final r) =
          [''00000000000040008000'', ''00000000000040008000'', ''00000000000040008000''])"
  by code_simp

text \<open>
  Claim C8, amended. For every program tree whose lowering succeeds: if the ids
  derived from the UUIDs drawn during the compilation (the first 20 hexadecimal
  digits of each) are pairwise distinct, then every block created receives an id
  distinct from the id of every other block created in that compilation, and the
  keys of \<^verbatim>\<open>blocks\<close> are exactly the ids created. The code does not enforce the
  condition; it relies on the randomness of the UUIDs.
\<close>

theorem created_ids_distinct:
  "(case lower g ast of
      Inl e \<Rightarrow> True
    | Inr r \<Rightarrow>
        distinct (map (new_id g) [0..<uuids (final r)]) \<longrightarrow>
        distinct (created (final r)) \<and> set (created (final r)) = dom (blocks (final r)))"
proof (cases "lower g ast")
  case (Inl e)
  then show ?thesis by simp
next
  case (Inr r)
  obtain body where ast: "ast = Program body" by (cases ast)
  have "ext g init_state (final r)"
    using ext_closed Inr by (auto simp: lower_def ast intro: top_loop_rel)
  then obtain ks where ks: "created (final r) = map (new_id g) ks" "sorted_wrt (<) ks"
    "set ks \<subseteq> {0..<uuids (final r)}" "dom (blocks (final r)) = new_id g ` set ks"
    by (auto simp: ext_def init_state_def)
  have d: "distinct ks" using ks(2) by (simp add: strict_sorted_iff)
  have "distinct (created (final r))" if "distinct (map (new_id g) [0..<uuids (final r)])"
  proof -
    have "inj_on (new_id g) (set [0..<uuids (final r)])"
      using that by (simp add: distinct_map)
    then have "inj_on (new_id g) (set ks)" using ks(3) by (auto intro: inj_on_subset)
    then show ?thesis using d ks(1) by (simp add: distinct_map)
  qed
  moreover have "set (created (final r)) = dom (blocks (final r))" using ks(1,4) by simp
  ultimately show ?thesis using Inr by simp
qed

theorem created_ids_distinct_witness:
  "(case lower sample_uuid
           (Program [Event Start,
              Repeat (Num (num 5))
                [Call (Str ''move'') [Num (num 10)] Undefined,
                 Call (Str ''turn'') [Str ''right'', Num (num 15)] Undefined]]) of
      Inl e \<Rightarrow> False
    | Inr r \<Rightarrow>
        distinct (map (new_id sample_uuid) [0..<uuids (final r)]) \<and>
        distinct (created (final r)) \<and> set (created (final r)) = dom (blocks (final r)))"
proof -
  have "(case lower sample_uuid
           (Program [Event Start,
              Repeat (Num (num 5))
                [Call (Str ''move'') [Num (num 10)] Undefined,
                 Call (Str ''turn'') [Str ''right'', Num (num 15)] Undefined]]) of
      Inl e \<Rightarrow> False
    | Inr r \<Rightarrow> distinct (map (new_id sample_uuid) [0..<uuids (final r)]))"
    by code_simp
  then show ?thesis
    using created_ids_distinct [of sample_uuid "Program [Event Start,
              Repeat (Num (num 5))
                [Call (Str ''move'') [Num (num 10)] Undefined,
                 Call (Str ''turn'') [Str ''right'', Num (num 15)] Undefined]]"]
    by (auto split: sum.splits)
qed

subsection \<open>Which blocks a lowering can change\<close>

text \<open>
  \<open>drawn g a b\<close> are the ids derived from the calls \<open>a\<close>, ..., \<open>b - 1\<close> of \<^verbatim>\<open>uuidv4\<close>.
  \<open>fr g E s s'\<close>: from \<open>s\<close> to \<open>s'\<close> calls of \<^verbatim>\<open>uuidv4\<close> were only added, and a key of
  \<^verbatim>\<open>blocks\<close> that is neither an id drawn in between nor in \<open>E\<close> has kept its block.
  Lowering a statement changes blocks at ids drawn during that lowering only;
  the loop of \<^verbatim>\<open>compileStatements\<close> may also set the \<^verbatim>\<open>next\<close> of \<^verbatim>\<open>prevId\<close>.
\<close>

definition drawn :: "(nat \<Rightarrow> string) \<Rightarrow> nat \<Rightarrow> nat \<Rightarrow> string set" where
  "drawn g a b = new_id g ` {a..<b}"

definition fr :: "(nat \<Rightarrow> string) \<Rightarrow> string set \<Rightarrow> gen_state \<Rightarrow> gen_state \<Rightarrow> bool" where
  "fr g E s s' \<longleftrightarrow>
     uuids s \<le> uuids s' \<and>
     (\<forall>k. k \<notin> drawn g (uuids s) (uuids s') \<longrightarrow> k \<notin> E \<longrightarrow> blocks s' k = blocks s k)"

definition stmt_frame ::
  "(nat \<Rightarrow> string) \<Rightarrow> gen_state \<Rightarrow> error + (string option \<times> gen_state) \<Rightarrow> bool" where
  "stmt_frame g s res =
     (case res of
        Inl e \<Rightarrow> True
      | Inr (r, s') \<Rightarrow>
          fr g {} s s' \<and> (\<forall>i. r = Some i \<longrightarrow> i \<in> drawn g (uuids s) (uuids s')))"

definition loop_frame ::
  "(nat \<Rightarrow> string) \<Rightarrow> string option \<Rightarrow> string option \<Rightarrow> gen_state \<Rightarrow>
   error + (compiled \<times> gen_state) \<Rightarrow> bool" where
  "loop_frame g f p s res =
     (case res of
        Inl e \<Rightarrow> True
      | Inr (c, s') \<Rightarrow>
          fr g (set_option p) s s' \<and>
          (first_id c = f \<or> (\<exists>i\<in>drawn g (uuids s) (uuids s'). first_id c = Some i)))"

lemma drawn_mono: "a' \<le> a \<Longrightarrow> b \<le> b' \<Longrightarrow> drawn g a b \<subseteq> drawn g a' b'"
  by (auto simp: drawn_def)

lemma fr_refl: "fr g E s s"
  by (simp add: fr_def)

lemma fr_trans:
  assumes "fr g E1 a b" "fr g E2 b c"
    and "E1 \<subseteq> E \<union> drawn g (uuids a) (uuids c)" "E2 \<subseteq> E \<union> drawn g (uuids a) (uuids c)"
  shows "fr g E a c"
proof -
  have le: "uuids a \<le> uuids b" "uuids b \<le> uuids c" using assms(1,2) by (simp_all add: fr_def)
  have d: "drawn g (uuids a) (uuids b) \<subseteq> drawn g (uuids a) (uuids c)"
    "drawn g (uuids b) (uuids c) \<subseteq> drawn g (uuids a) (uuids c)"
    using le by (simp_all add: drawn_mono)
  have "blocks c k = blocks a k" if "k \<notin> drawn g (uuids a) (uuids c)" "k \<notin> E" for k
  proof -
    have "blocks c k = blocks b k" using assms(2,4) that d(2) by (auto simp: fr_def)
    moreover have "blocks b k = blocks a k" using assms(1,3) that d(1) by (auto simp: fr_def)
    ultimately show ?thesis by simp
  qed
  then show ?thesis using le by (simp add: fr_def)
qed

lemma fr_weaken: "fr g E s s' \<Longrightarrow> E \<subseteq> E' \<Longrightarrow> fr g E' s s'"
  by (auto simp: fr_def)

lemma addBlock_fr:
  assumes "addBlock g opc inp fld n p s = (i, s1)"
  shows "fr g {} s s1" "i \<in> drawn g (uuids s) (uuids s1)" "uuids s1 = Suc (uuids s)"
    "i = new_id g (uuids s)"
    "blocks s1 i = Some \<lparr>opcode = opc, inputs = inp, fields_obj = fld, next_id = n, parent = p\<rparr>"
  using assms by (auto simp: addBlock_def Let_def fr_def drawn_def)

lemma compileCall_addBlock:
  "\<exists>opc inp. compileCall g name args fv s = addBlock g opc inp [] None None s"
  by (simp add: compileCall_def Let_def) blast

lemma compileCall_fr:
  assumes "compileCall g name args fv s = (i, s1)"
  shows "fr g {} s s1" "i \<in> drawn g (uuids s) (uuids s1)"
proof -
  obtain opc inp where "addBlock g opc inp [] None None s = (i, s1)"
    using assms compileCall_addBlock [of g name args fv s] by auto
  then show "fr g {} s s1" "i \<in> drawn g (uuids s) (uuids s1)"
    by (rule addBlock_fr(1), rule addBlock_fr(2))
qed

lemma set_next_fr: "set_next k v s = Inr s1 \<Longrightarrow> fr g {k} s s1 \<and> uuids s1 = uuids s"
  by (auto simp: set_next_def fr_def split: option.splits)

lemma set_parent_fr:
  "set_parent k v s = Inr s1 \<Longrightarrow> fr g (set_option k) s s1 \<and> uuids s1 = uuids s"
  by (auto simp: set_parent_def fr_def split: option.splits)

lemma link_fr: "link p v s = Inr s1 \<Longrightarrow> fr g (set_option p) s s1 \<and> uuids s1 = uuids s"
  by (auto simp: link_def fr_refl dest: set_next_fr split: option.splits if_splits)

lemma container_frame:
  assumes "loop_frame g None None s0 (Inr (c, s1))" "fr g {} s s0"
  shows "stmt_frame g s (container g opc inp c s1)"
proof -
  have l: "fr g {} s0 s1"
    "first_id c = None \<or> (\<exists>i\<in>drawn g (uuids s0) (uuids s1). first_id c = Some i)"
    using assms(1) by (simp_all add: loop_frame_def)
  obtain i s2 where a: "addBlock g opc inp [] None None s1 = (i, s2)"
    by (cases "addBlock g opc inp [] None None s1")
  note af = addBlock_fr [OF a]
  have le: "uuids s \<le> uuids s0" "uuids s0 \<le> uuids s1" "uuids s1 \<le> uuids s2"
    using assms(2) l(1) af(1) by (simp_all add: fr_def)
  have 01: "fr g {} s s1" using assms(2) l(1) by (rule fr_trans) simp_all
  have 02: "fr g {} s s2" using 01 af(1) by (rule fr_trans) simp_all
  have "drawn g (uuids s1) (uuids s2) \<subseteq> drawn g (uuids s) (uuids s2)"
    by (rule drawn_mono) (use le in simp_all)
  then have i: "i \<in> drawn g (uuids s) (uuids s2)" using af(2) by blast
  show ?thesis
  proof (cases "blocksOrder c = []")
    case True
    then show ?thesis using a 02 i by (simp add: container_def stmt_frame_def)
  next
    case False
    show ?thesis
    proof (cases "set_parent (first_id c) (Some i) s2")
      case (Inl e)
      then show ?thesis using a False by (simp add: container_def stmt_frame_def)
    next
      case (Inr s3)
      have p: "fr g (set_option (first_id c)) s2 s3" "uuids s3 = uuids s2"
        using set_parent_fr [OF Inr] by simp_all
      have "drawn g (uuids s0) (uuids s1) \<subseteq> drawn g (uuids s) (uuids s3)"
        by (rule drawn_mono) (use le p(2) in simp_all)
      then have "set_option (first_id c) \<subseteq> {} \<union> drawn g (uuids s) (uuids s3)"
        using l(2) by (cases "first_id c") auto
      then have "fr g {} s s3"
        using 02 p(1) by (intro fr_trans [of g "{}" s s2 "set_option (first_id c)" s3]) simp_all
      then show ?thesis using a False Inr i p(2) by (simp add: container_def stmt_frame_def)
    qed
  qed
qed

lemma nested_frame:
  assumes "loop_frame g None None s0 (compileStatements g body s0)" "fr g {} s s0"
  shows "stmt_frame g s (case compileStatements g body s0 of
            Inl e \<Rightarrow> Inl e
          | Inr (bodyFirst, s1) \<Rightarrow> container g opc (inp bodyFirst) bodyFirst s1)"
proof (cases "compileStatements g body s0")
  case (Inl e)
  then show ?thesis by (simp add: stmt_frame_def)
next
  case (Inr r)
  obtain c s1 where r: "r = (c, s1)" by (cases r)
  have "stmt_frame g s (container g opc (inp c) c s1)"
    using assms Inr r by (intro container_frame [of g s0]) simp_all
  then show ?thesis using Inr r by simp
qed


lemma frame_simple:
  assumes "addBlock g opc inp fld n p s = (i, s1)"
  shows "stmt_frame g s (Inr (Some i, s1))"
  using addBlock_fr(1,2) [OF assms] by (simp add: stmt_frame_def)

lemma lowering_frame:
  "stmt_frame g s (compileStatement g x s)"
  "loop_frame g None None s (compileStatements g xs s)"
  "loop_frame g f p s (compile_loop g xs order f p s)"
proof (induction g x s and g xs s and g xs order f p s
    rule: compileStatement_compileStatements_compile_loop.induct)
  case (1 uuidv4 name args fr s)
  obtain i s1 where c: "compileCall uuidv4 name args fr s = (i, s1)"
    by (cases "compileCall uuidv4 name args fr s")
  then show ?case using compileCall_fr [OF c] by (simp add: stmt_frame_def)
next
  case (2 uuidv4 count body s)
  have "fr uuidv4 {} s (s\<lparr>uuids := Suc (uuids s)\<rparr>)" by (simp add: fr_def)
  with "2.IH" have "stmt_frame uuidv4 s
       (case compileStatements uuidv4 body (s\<lparr>uuids := Suc (uuids s)\<rparr>) of
            Inl e \<Rightarrow> Inl e
          | Inr (bodyFirst, s1) \<Rightarrow>
              container uuidv4 ''control_repeat''
                ((\<lambda>c. [(''TIMES'', shadow4 count),
                       (''SUBSTACK'', Arr [Num (num 2), ref (first_id c)])]) bodyFirst)
                bodyFirst s1)"
    by (rule nested_frame)
  then show ?case by simp
next
  case (3 uuidv4 s)
  obtain i s1 where a: "addBlock uuidv4 ''event_whenflagclicked'' [] [] None None s = (i, s1)"
    by (cases "addBlock uuidv4 ''event_whenflagclicked'' [] [] None None s")
  then show ?case using frame_simple [OF a] by simp
next
  case (4 uuidv4 s)
  obtain i s1 where
    a: "addBlock uuidv4 ''event_whenthisspriteclicked'' [] [] None None s = (i, s1)"
    by (cases "addBlock uuidv4 ''event_whenthisspriteclicked'' [] [] None None s")
  then show ?case using frame_simple [OF a] by simp
next
  case (5 uuidv4 name s)
  obtain i s1 where a: "addBlock uuidv4 ''event_whenbackdropswitchesto''
      [(''BACKDROP'', Arr [Num (num 10), name])] [] None None s = (i, s1)"
    by (cases "addBlock uuidv4 ''event_whenbackdropswitchesto''
      [(''BACKDROP'', Arr [Num (num 10), name])] [] None None s")
  then show ?case using frame_simple [OF a] by simp
next
  case (6 uuidv4 k s)
  then show ?case by (simp add: stmt_frame_def)
next
  case (7 uuidv4 body s)
  have "stmt_frame uuidv4 s
       (case compileStatements uuidv4 body s of
            Inl e \<Rightarrow> Inl e
          | Inr (bodyFirst, s1) \<Rightarrow>
              container uuidv4 ''control_forever''
                ((\<lambda>c. [(''SUBSTACK'', Arr [Num (num 2), ref (first_id c)])]) bodyFirst)
                bodyFirst s1)"
    using "7.IH" fr_refl by (rule nested_frame)
  then show ?case by simp
next
  case (8 uuidv4 condition consequent alternate s)
  have "stmt_frame uuidv4 s
       (case compileStatements uuidv4 consequent s of
            Inl e \<Rightarrow> Inl e
          | Inr (bodyFirst, s1) \<Rightarrow>
              container uuidv4 ''control_if''
                ((\<lambda>c. [(''CONDITION'', Arr [Num (num 1), Str condition]),
                       (''SUBSTACK'', Arr [Num (num 2), ref (first_id c)])]) bodyFirst)
                bodyFirst s1)"
    using "8.IH" fr_refl by (rule nested_frame)
  then show ?case by simp
next
  case (9 uuidv4 condition s)
  obtain i s1 where a: "addBlock uuidv4 ''control_wait_until''
      [(''CONDITION'', Arr [Num (num 1), Str condition])] [] None None s = (i, s1)"
    by (cases "addBlock uuidv4 ''control_wait_until''
      [(''CONDITION'', Arr [Num (num 1), Str condition])] [] None None s")
  then show ?case using frame_simple [OF a] by simp
next
  case (10 uuidv4 s)
  then show ?case by (simp add: stmt_frame_def fr_refl)
next
  case (11 uuidv4 stmts s)
  then show ?case by simp
next
  case (12 uuidv4 order firstId prevId s)
  then show ?case by (simp add: loop_frame_def fr_refl)
next
  case (13 uuidv4 x xs order firstId prevId s)
  note IH = "13.IH"
  show ?case
  proof (cases "compileStatement uuidv4 x s")
    case (Inl e)
    then show ?thesis by (simp add: loop_frame_def)
  next
    case (Inr r)
    obtain bid s1 where r: "r = (bid, s1)" by (cases r)
    have x: "compileStatement uuidv4 x s = Inr (bid, s1)" using Inr r by simp
    have 1: "fr uuidv4 {} s s1" "\<forall>i. bid = Some i \<longrightarrow> i \<in> drawn uuidv4 (uuids s) (uuids s1)"
      using IH(1) x by (simp_all add: stmt_frame_def)
    have le1: "uuids s \<le> uuids s1" using 1(1) by (simp add: fr_def)
    show ?thesis
    proof (cases "truthy_id bid")
      case False
      then have eq: "compile_loop uuidv4 (x # xs) order firstId prevId s =
                 compile_loop uuidv4 xs order firstId prevId s1"
        using x by (auto simp: truthy_id_def split: option.splits)
      have l: "loop_frame uuidv4 firstId prevId s1 (compile_loop uuidv4 xs order firstId prevId s1)"
      proof (cases bid)
        case None
        show ?thesis by (rule IH(2) [OF x refl None])
      next
        case (Some i)
        then have "i = []" using False by (simp add: truthy_id_def)
        show ?thesis by (rule IH(3) [OF x refl Some \<open>i = []\<close>])
      qed
      show ?thesis
      proof (cases "compile_loop uuidv4 xs order firstId prevId s1")
        case (Inl e)
        then show ?thesis using eq by (simp add: loop_frame_def)
      next
        case (Inr q)
        obtain c s' where q: "q = (c, s')" by (cases q)
        have 2: "fr uuidv4 (set_option prevId) s1 s'"
          "first_id c = firstId \<or> (\<exists>i\<in>drawn uuidv4 (uuids s1) (uuids s'). first_id c = Some i)"
          using l Inr q by (simp_all add: loop_frame_def)
        have le2: "uuids s1 \<le> uuids s'" using 2(1) by (simp add: fr_def)
        have "fr uuidv4 (set_option prevId) s s'"
          using 1(1) 2(1) by (rule fr_trans) simp_all
        moreover have "drawn uuidv4 (uuids s1) (uuids s') \<subseteq> drawn uuidv4 (uuids s) (uuids s')"
          by (rule drawn_mono) (use le1 in simp_all)
        then have "first_id c = firstId \<or>
            (\<exists>i\<in>drawn uuidv4 (uuids s) (uuids s'). first_id c = Some i)"
          using 2(2) by blast
        ultimately show ?thesis using eq Inr q by (simp add: loop_frame_def)
      qed
    next
      case True
      then obtain i where i: "bid = Some i" "i \<noteq> []"
        by (auto simp: truthy_id_def split: option.splits)
      have i1: "i \<in> drawn uuidv4 (uuids s) (uuids s1)" using 1(2) i by simp
      show ?thesis
      proof (cases "link prevId bid s1")
        case (Inl e)
        then show ?thesis using x i by (simp add: loop_frame_def)
      next
        case (Inr s2)
        note l = Inr
        have 2: "fr uuidv4 (set_option prevId) s1 s2" "uuids s2 = uuids s1"
          using link_fr [OF l] by simp_all
        let ?f = "if \<not> truthy_id firstId then bid else firstId"
        have eq: "compile_loop uuidv4 (x # xs) order firstId prevId s =
                 compile_loop uuidv4 xs (order @ [i]) ?f bid s2"
          using x i l by simp
        have lf: "loop_frame uuidv4 ?f bid s2 (compile_loop uuidv4 xs (order @ [i]) ?f bid s2)"
          by (rule IH(4) [OF x refl i l])
        show ?thesis
        proof (cases "compile_loop uuidv4 xs (order @ [i]) ?f bid s2")
          case (Inl e)
          then show ?thesis using eq by (simp add: loop_frame_def)
        next
          case (Inr q)
          obtain c s' where q: "q = (c, s')" by (cases q)
          have 3: "fr uuidv4 {i} s2 s'"
            "first_id c = ?f \<or> (\<exists>j\<in>drawn uuidv4 (uuids s2) (uuids s'). first_id c = Some j)"
            using lf Inr q i by (simp_all add: loop_frame_def)
          have le3: "uuids s2 \<le> uuids s'" using 3(1) by (simp add: fr_def)
          have sub1: "drawn uuidv4 (uuids s) (uuids s1) \<subseteq> drawn uuidv4 (uuids s) (uuids s')"
            by (rule drawn_mono) (use le3 2(2) in simp_all)
          have sub2: "drawn uuidv4 (uuids s2) (uuids s') \<subseteq> drawn uuidv4 (uuids s) (uuids s')"
            by (rule drawn_mono) (use le1 2(2) in simp_all)
          have a: "fr uuidv4 (set_option prevId) s s2"
            using 1(1) 2(1) by (rule fr_trans) simp_all
          have "fr uuidv4 (set_option prevId) s s'"
            using a 3(1) by (rule fr_trans) (use i1 sub1 in auto)
          moreover have "first_id c = firstId \<or>
              (\<exists>j\<in>drawn uuidv4 (uuids s) (uuids s'). first_id c = Some j)"
            using 3(2) i i1 sub1 sub2 by (auto split: if_splits)
          ultimately show ?thesis using eq Inr q by (simp add: loop_frame_def)
        qed
      qed
    qed
  qed
qed

subsection \<open>Top-level statements\<close>

definition isolated_hat :: "block \<Rightarrow> bool" where
  "isolated_hat b \<longleftrightarrow>
     next_id b = None \<and> parent b = None \<and>
     opcode b \<in> set [''event_whenflagclicked'', ''event_whenthisspriteclicked'',
                      ''event_whenbackdropswitchesto'']"

lemma event_addBlock:
  assumes "is_Event node" "compileStatement g node s = Inr (h, s1)"
  shows "h = Some (new_id g (uuids s)) \<and> uuids s1 = Suc (uuids s) \<and> fr g {} s s1 \<and>
         (\<exists>b. blocks s1 (new_id g (uuids s)) = Some b \<and> isolated_hat b)"
proof -
  obtain e where node: "node = Event e" using assms(1) by (cases node) (auto simp: is_Event_def)
  have "\<exists>opc inp. opc \<in> set [''event_whenflagclicked'', ''event_whenthisspriteclicked'',
                      ''event_whenbackdropswitchesto''] \<and>
          addBlock g opc inp [] None None s = (the h, s1) \<and> h \<noteq> None"
    using assms(2) unfolding node by (cases e) (fastforce split: prod.splits)+
  then obtain opc inp i where a: "addBlock g opc inp [] None None s = (i, s1)" "h = Some i"
    and o: "opc \<in> set [''event_whenflagclicked'', ''event_whenthisspriteclicked'',
                      ''event_whenbackdropswitchesto'']"
    by auto
  note af = addBlock_fr [OF a(1)]
  show ?thesis using af a(2) o by (simp add: isolated_hat_def)
qed

lemma hats_phase:
  "\<forall>n\<in>set evs. is_Event n \<Longrightarrow> top_loop g body (evs @ rest) scr s = Inr r \<Longrightarrow>
   \<exists>s1. top_loop g body rest
           (scr @ map (\<lambda>k. Some (new_id g k)) [uuids s..<uuids s + length evs]) s1 = Inr r \<and>
        uuids s1 = uuids s + length evs \<and> fr g {} s s1 \<and>
        (\<forall>k. uuids s \<le> k \<longrightarrow> k < uuids s + length evs \<longrightarrow>
             (\<exists>b. blocks s1 (new_id g k) = Some b \<and> isolated_hat b))"
proof (induction evs arbitrary: scr s)
  case Nil
  then show ?case by (auto simp: fr_refl)
next
  case (Cons node evs)
  have ev: "is_Event node" and evs: "\<forall>n\<in>set evs. is_Event n" using Cons.prems(1) by simp_all
  obtain h s0 where x: "compileStatement g node s = Inr (h, s0)"
    and run: "top_loop g body (evs @ rest) (scr @ [h]) s0 = Inr r"
    using Cons.prems(2) ev by (auto split: sum.splits)
  note e = event_addBlock [OF ev x]
  obtain s1 where 1: "top_loop g body rest
           ((scr @ [h]) @ map (\<lambda>k. Some (new_id g k)) [uuids s0..<uuids s0 + length evs]) s1 = Inr r"
    "uuids s1 = uuids s0 + length evs" "fr g {} s0 s1"
    "\<forall>k. uuids s0 \<le> k \<longrightarrow> k < uuids s0 + length evs \<longrightarrow>
             (\<exists>b. blocks s1 (new_id g k) = Some b \<and> isolated_hat b)"
    using Cons.IH [OF evs run] by blast
  have u: "uuids s0 = Suc (uuids s)" using e by simp
  have l: "[uuids s..<uuids s + length (node # evs)] = uuids s # [uuids s0..<uuids s0 + length evs]"
    using upt_conv_Cons [of "uuids s" "uuids s + length (node # evs)"] by (simp add: u)
  have a: "top_loop g body rest
           (scr @ map (\<lambda>k. Some (new_id g k)) [uuids s..<uuids s + length (node # evs)]) s1 = Inr r"
    using 1(1) e unfolding l by simp
  have b: "uuids s1 = uuids s + length (node # evs)" using 1(2) u by simp
  have c: "fr g {} s s1" using e 1(3) by (intro fr_trans [of g "{}" s s0 "{}" s1]) simp_all
  have d: "\<exists>b. blocks s1 (new_id g k) = Some b \<and> isolated_hat b"
    if "uuids s \<le> k" "k < uuids s + length (node # evs)" for k
  proof (cases "k = uuids s")
    case False
    then show ?thesis using that 1(4) u by simp
  next
    case True
    show ?thesis
    proof (cases "new_id g k \<in> drawn g (uuids s0) (uuids s1)")
      case True
      then obtain k' where "new_id g k = new_id g k'" "uuids s0 \<le> k'" "k' < uuids s0 + length evs"
        using 1(2) by (auto simp: drawn_def)
      then show ?thesis using 1(4) by simp
    next
      case False
      then have "blocks s1 (new_id g k) = blocks s0 (new_id g k)"
        using 1(3) by (simp add: fr_def)
      then show ?thesis using e True by simp
    qed
  qed
  show ?case using a b c d by blast
qed


lemma events_phase:
  "\<forall>n\<in>set evs. is_Event n \<Longrightarrow> top_loop g body (evs @ rest) scr s = Inr r \<Longrightarrow>
   \<exists>r0. top_loop g body' evs scr s = Inr r0 \<and>
        top_loop g body rest (scripts r0) (final r0) = Inr r"
proof (induction evs arbitrary: scr s)
  case Nil
  then show ?case by simp
next
  case (Cons node evs)
  have ev: "is_Event node" and evs: "\<forall>n\<in>set evs. is_Event n" using Cons.prems(1) by simp_all
  obtain h s0 where x: "compileStatement g node s = Inr (h, s0)"
    and run: "top_loop g body (evs @ rest) (scr @ [h]) s0 = Inr r"
    using Cons.prems(2) ev by (auto split: sum.splits)
  obtain r0 where "top_loop g body' evs (scr @ [h]) s0 = Inr r0"
    "top_loop g body rest (scripts r0) (final r0) = Inr r"
    using Cons.IH [OF evs run] by blast
  then show ?case using ev x by simp
qed

lemma hats_only:
  assumes "\<forall>n\<in>set evs. is_Event n" "top_loop g body evs scr s = Inr r0"
  shows "scripts r0 = scr @ map (\<lambda>k. Some (new_id g k)) [uuids s..<uuids s + length evs]"
    and "uuids (final r0) = uuids s + length evs"
    and "startHat r0 = None"
    and "\<forall>k. uuids s \<le> k \<longrightarrow> k < uuids s + length evs \<longrightarrow>
             (\<exists>b. blocks (final r0) (new_id g k) = Some b \<and> isolated_hat b)"
proof -
  have "top_loop g body (evs @ []) scr s = Inr r0" using assms(2) by simp
  from hats_phase [OF assms(1) this]
  obtain s1 where 1: "top_loop g body []
           (scr @ map (\<lambda>k. Some (new_id g k)) [uuids s..<uuids s + length evs]) s1 = Inr r0"
    "uuids s1 = uuids s + length evs"
    "\<forall>k. uuids s \<le> k \<longrightarrow> k < uuids s + length evs \<longrightarrow>
             (\<exists>b. blocks s1 (new_id g k) = Some b \<and> isolated_hat b)"
    by blast
  have r0: "r0 = \<lparr>final = s1,
      scripts = scr @ map (\<lambda>k. Some (new_id g k)) [uuids s..<uuids s + length evs],
      startHat = None\<rparr>"
    using 1(1) by simp
  show "scripts r0 = scr @ map (\<lambda>k. Some (new_id g k)) [uuids s..<uuids s + length evs]"
    by (simp add: r0)
  show "uuids (final r0) = uuids s + length evs" using 1(2) by (simp add: r0)
  show "startHat r0 = None" by (simp add: r0)
  show "\<forall>k. uuids s \<le> k \<longrightarrow> k < uuids s + length evs \<longrightarrow>
             (\<exists>b. blocks (final r0) (new_id g k) = Some b \<and> isolated_hat b)"
    using 1(3) by (simp add: r0)
qed

lemma synthetic_phase:
  assumes "\<not> is_Event m" "top_loop g body (m # rest) scr s1 = Inr r"
  shows "\<exists>sa c s2 hb.
           sa = snd (addBlock g ''event_whenflagclicked'' [] [] None None s1) \<and>
           uuids sa = Suc (uuids s1) \<and> fr g {} s1 sa \<and>
           blocks sa (new_id g (uuids s1)) =
             Some \<lparr>opcode = ''event_whenflagclicked'', inputs = [], fields_obj = [],
                   next_id = None, parent = None\<rparr> \<and>
           compileStatements g body sa = Inr (c, s2) \<and> fr g {} sa s2 \<and>
           scripts r = scr \<and> startHat r = Some (new_id g (uuids s1)) \<and>
           blocks s2 (new_id g (uuids s1)) = Some hb \<and> live s2 (first_id c) \<and>
           final r =
             (if truthy_id (first_id c)
              then s2\<lparr>blocks := (blocks s2)(new_id g (uuids s1) \<mapsto> hb\<lparr>next_id := first_id c\<rparr>)\<rparr>
              else s2)"
proof -
  obtain hat sa where a: "addBlock g ''event_whenflagclicked'' [] [] None None s1 = (hat, sa)"
    by (cases "addBlock g ''event_whenflagclicked'' [] [] None None s1")
  note af = addBlock_fr [OF a]
  have hat: "hat = new_id g (uuids s1)" using af by simp
  obtain c s2 where b: "compileStatements g body sa = Inr (c, s2)"
    using assms a by (auto simp del: compileStatements.simps split: sum.splits)
  have f: "fr g {} sa s2"
    using lowering_frame(2) [of g sa body] b by (simp add: loop_frame_def)
  have ok: "dom (blocks sa) \<subseteq> dom (blocks s2)" "live s2 (first_id c)"
    using lowering_ok(2) [of sa g body] b by (simp_all add: loop_ok_def)
  have "hat \<in> dom (blocks sa)" using addBlock_dom [OF a] by simp
  then obtain hb where hb: "blocks s2 hat = Some hb" using ok(1) by auto
  have r: "final r =
             (if truthy_id (first_id c)
              then s2\<lparr>blocks := (blocks s2)(hat \<mapsto> hb\<lparr>next_id := first_id c\<rparr>)\<rparr>
              else s2) \<and>
           scripts r = scr \<and> startHat r = Some hat"
  proof (cases "truthy_id (first_id c)")
    case False
    then have "r = \<lparr>final = s2, scripts = scr, startHat = Some hat\<rparr>"
      using assms a b by auto
    then show ?thesis using False by simp
  next
    case True
    then have "r = \<lparr>final = s2\<lparr>blocks := (blocks s2)(hat \<mapsto> hb\<lparr>next_id := first_id c\<rparr>)\<rparr>,
        scripts = scr, startHat = Some hat\<rparr>"
      using assms a b hb by (auto simp: set_next_def)
    then show ?thesis using True by simp
  qed
  show ?thesis
    using a af b f ok(2) hb r unfolding hat
    by (intro exI [of _ sa] exI [of _ c] exI [of _ s2] exI [of _ hb])
      (simp del: compileStatements.simps)
qed

text \<open>
  Claim C2, as the specification states it, says that a synthetic start hat that
  takes the whole top-level list is created only when the very first top-level
  statement is not an \<open>Event\<close> (only when there is no \<open>Event\<close> at all), and that each
  top-level \<open>Event\<close> gets one hat. On the code the \<^verbatim>\<open>else\<close> branch of the loop is
  taken at the first statement that is not an \<open>Event\<close>, wherever it stands: for
  \<^verbatim>\<open>on start; move(10);\<close> the first statement is an \<open>Event\<close>, a synthetic hat is
  created all the same, and the \<open>Event\<close> gets two hats, the isolated one and a second
  one in the chain below the synthetic hat.
\<close>

theorem top_level_lowering_counterexample:
  "is_Event (hd [Event Start, Call (Str ''move'') [Num (num 10)] Undefined]) \<and>
   (case lower sample_uuid
           (Program [Event Start, Call (Str ''move'') [Num (num 10)] Undefined]) of
      Inl e \<Rightarrow> False
    | Inr r \<Rightarrow>
        scripts r = [Some ''00000000000040008000''] \<and>
        startHat r = Some ''00000001000040008000'' \<and>
        map (\<lambda>k. map_option (\<lambda>b. (opcode b, next_id b)) (blocks (final r) k))
          (created (final r)) =
          [Some (''event_whenflagclicked'', None),
           Some (''event_whenflagclicked'', Some ''00000002000040008000''),
           Some (''event_whenflagclicked'', Some ''00000003000040008000''),
           Some (''motion_movesteps'', None)])"
  by code_simp

text \<open>
  Claim C2, amended. For every program tree whose lowering succeeds, with \<open>n\<close> the
  number of \<open>Event\<close> statements that precede the first top-level statement that is
  not an \<open>Event\<close>: these \<open>n\<close> statements get one hat each, the script roots, from the
  first \<open>n\<close> UUIDs; a synthetic start hat is created exactly when some top-level
  statement is not an \<open>Event\<close>, and then only one, from the next UUID. In that case
  the final state is built in three steps: \<open>r0\<close>, the lowering of the \<open>n\<close> leading
  \<open>Event\<close> statements alone; the synthetic hat added to its state; and \<open>s2\<close>, the
  state after the entire top-level list was lowered from there as one statement
  list \<open>c\<close>. The final state is \<open>s2\<close>, with the \<^verbatim>\<open>next\<close> of the synthetic hat set to
  the first block of \<open>c\<close> when there is one, and that first block is a block of the
  final state; nothing is lowered after that. When the ids drawn in the
  compilation are pairwise distinct, each of the \<open>n\<close> hats ends isolated, with
  \<^verbatim>\<open>next\<close> and \<^verbatim>\<open>parent\<close> none, and the synthetic hat is an \<open>event_whenflagclicked\<close>
  block whose \<^verbatim>\<open>next\<close> is the first block of \<open>c\<close> (none when \<open>c\<close> has no block).
\<close>

theorem top_level_lowering:
  "(case lower g (Program body) of
      Inl e \<Rightarrow> True
    | Inr r \<Rightarrow>
        (let n = length (takeWhile is_Event body); hat = new_id g n
         in scripts r = map (\<lambda>k. Some (new_id g k)) [0..<n] \<and>
            startHat r = (if list_all is_Event body then None else Some hat) \<and>
            (distinct (map (new_id g) [0..<uuids (final r)]) \<longrightarrow>
               (\<forall>k<n. \<exists>b. blocks (final r) (new_id g k) = Some b \<and> isolated_hat b)) \<and>
            (\<exists>r0. lower g (Program (takeWhile is_Event body)) = Inr r0 \<and>
               uuids (final r0) = n \<and>
               (if list_all is_Event body then r = r0
                else
                  (\<exists>c s2 hb.
                     compileStatements g body
                       (snd (addBlock g ''event_whenflagclicked'' [] [] None None (final r0))) =
                       Inr (c, s2) \<and>
                     blocks s2 hat = Some hb \<and>
                     final r =
                       (if truthy_id (first_id c)
                        then s2\<lparr>blocks := (blocks s2)(hat \<mapsto> hb\<lparr>next_id := first_id c\<rparr>)\<rparr>
                        else s2) \<and>
                     (truthy_id (first_id c) \<longrightarrow>
                        (\<exists>i. first_id c = Some i \<and> i \<in> dom (blocks (final r)))) \<and>
                     (distinct (map (new_id g) [0..<uuids (final r)]) \<longrightarrow>
                        blocks (final r) hat =
                          Some \<lparr>opcode = ''event_whenflagclicked'', inputs = [],
                                fields_obj = [],
                                next_id = (if truthy_id (first_id c) then first_id c else None),
                                parent = None\<rparr>))))))"
proof (cases "lower g (Program body)")
  case (Inl e)
  then show ?thesis by simp
next
  case (Inr r)
  let ?evs = "takeWhile is_Event body" and ?rest = "dropWhile is_Event body"
  let ?n = "length ?evs"
  let ?hat = "new_id g ?n"
  have run: "top_loop g body (?evs @ ?rest) [] init_state = Inr r"
    using Inr by (simp add: lower_def)
  have evs: "\<forall>x\<in>set ?evs. is_Event x" by (auto dest: set_takeWhileD)
  from events_phase [OF evs run, of ?evs]
  obtain r0 where r0: "top_loop g ?evs ?evs [] init_state = Inr r0"
    and rest: "top_loop g body ?rest (scripts r0) (final r0) = Inr r"
    by blast
  have l0: "lower g (Program ?evs) = Inr r0" using r0 by (simp add: lower_def)
  have 1: "scripts r0 = map (\<lambda>k. Some (new_id g k)) [0..<?n]"
    "uuids (final r0) = ?n"
    "\<forall>k<?n. \<exists>b. blocks (final r0) (new_id g k) = Some b \<and> isolated_hat b"
    "startHat r0 = None"
    using hats_only [OF evs r0] by (simp_all add: init_state_def)
  show ?thesis
  proof (cases ?rest)
    case Nil
    then have all: "list_all is_Event body" by (simp add: list_all_iff)
    have eq: "?evs = body" using all by (simp add: list_all_iff)
    have "r = r0" using l0 Inr unfolding eq by simp
    then show ?thesis using Inr all l0 1 by (simp add: Let_def)
  next
    case (Cons m rest')
    then have m: "\<not> is_Event m" using hd_dropWhile [of is_Event body] by auto
    have nall: "\<not> list_all is_Event body"
      using Cons dropWhile_eq_Nil_conv [of is_Event body] by (auto simp: list_all_iff)
    from synthetic_phase [OF m rest [unfolded Cons]]
    obtain sa c s2 hb where 2:
      "sa = snd (addBlock g ''event_whenflagclicked'' [] [] None None (final r0))"
      "uuids sa = Suc ?n" "fr g {} (final r0) sa"
      "blocks sa ?hat =
             Some \<lparr>opcode = ''event_whenflagclicked'', inputs = [], fields_obj = [],
                   next_id = None, parent = None\<rparr>"
      "compileStatements g body sa = Inr (c, s2)" "fr g {} sa s2"
      "scripts r = scripts r0"
      "startHat r = Some ?hat"
      "blocks s2 ?hat = Some hb" "live s2 (first_id c)"
      and fin: "final r =
             (if truthy_id (first_id c)
              then s2\<lparr>blocks := (blocks s2)(?hat \<mapsto> hb\<lparr>next_id := first_id c\<rparr>)\<rparr>
              else s2)"
      unfolding 1(2) by blast
    have u: "uuids (final r) = uuids s2" using fin by simp
    have bl: "blocks (final r) =
             (if truthy_id (first_id c)
              then (blocks s2)(?hat \<mapsto> hb\<lparr>next_id := first_id c\<rparr>)
              else blocks s2)"
      using fin by simp
    have le: "Suc ?n \<le> uuids s2" using 2(2,6) by (simp add: fr_def)
    have first: "\<exists>i. first_id c = Some i \<and> i \<in> dom (blocks (final r))"
      if "truthy_id (first_id c)"
      using that 2(10) bl by (auto simp: truthy_id_def live_def split: option.splits)
    have inj: "inj_on (new_id g) {0..<uuids s2}"
      if "distinct (map (new_id g) [0..<uuids (final r)])"
      using that u by (simp add: distinct_map)
    have out: "new_id g k \<notin> drawn g (Suc ?n) (uuids s2)"
      if "distinct (map (new_id g) [0..<uuids (final r)])" "k \<le> ?n" for k
    proof
      assume "new_id g k \<in> drawn g (Suc ?n) (uuids s2)"
      then obtain j where j: "new_id g k = new_id g j" "Suc ?n \<le> j" "j < uuids s2"
        by (auto simp: drawn_def)
      then have "k = j" using inj [OF that(1)] that(2) le by (auto dest!: inj_onD [of _ _ k j])
      then show False using j(2) that(2) by simp
    qed
    have keep: "blocks s2 (new_id g k) = blocks sa (new_id g k)"
      if "distinct (map (new_id g) [0..<uuids (final r)])" "k \<le> ?n" for k
      using 2(6) out [OF that] by (simp add: fr_def 2(2))
    have ne: "new_id g k \<noteq> ?hat"
      if "distinct (map (new_id g) [0..<uuids (final r)])" "k < ?n" for k
      using inj [OF that(1)] that(2) le by (auto dest!: inj_onD [of _ _ k ?n])
    have old: "blocks sa (new_id g k) = blocks (final r0) (new_id g k)"
      if "distinct (map (new_id g) [0..<uuids (final r)])" "k < ?n" for k
    proof -
      have "new_id g k \<notin> drawn g ?n (Suc ?n)" using ne [OF that] by (simp add: drawn_def)
      then show ?thesis using 2(3) by (simp add: fr_def 1(2) 2(2))
    qed
    have hats: "\<exists>b. blocks (final r) (new_id g k) = Some b \<and> isolated_hat b"
      if d: "distinct (map (new_id g) [0..<uuids (final r)])" and k: "k < ?n" for k
    proof -
      have "blocks (final r) (new_id g k) = blocks s2 (new_id g k)"
        using bl ne [OF that] by simp
      also have "\<dots> = blocks (final r0) (new_id g k)"
        using keep [OF d, of k] old [OF that] k by simp
      finally show ?thesis using 1(3) k by simp
    qed
    have synth: "blocks (final r) ?hat =
           Some \<lparr>opcode = ''event_whenflagclicked'', inputs = [], fields_obj = [],
                 next_id = (if truthy_id (first_id c) then first_id c else None),
                 parent = None\<rparr>"
      if d: "distinct (map (new_id g) [0..<uuids (final r)])"
    proof -
      have "blocks s2 ?hat = blocks sa ?hat" using d by (rule keep) simp
      then have "hb = \<lparr>opcode = ''event_whenflagclicked'', inputs = [], fields_obj = [],
                   next_id = None, parent = None\<rparr>"
        using 2(4,9) by simp
      then show ?thesis using bl 2(9) by simp
    qed
    have ex: "\<exists>c s2 hb.
         compileStatements g body
           (snd (addBlock g ''event_whenflagclicked'' [] [] None None (final r0))) =
           Inr (c, s2) \<and>
         blocks s2 ?hat = Some hb \<and>
         final r =
           (if truthy_id (first_id c)
            then s2\<lparr>blocks := (blocks s2)(?hat \<mapsto> hb\<lparr>next_id := first_id c\<rparr>)\<rparr>
            else s2) \<and>
         (truthy_id (first_id c) \<longrightarrow>
            (\<exists>i. first_id c = Some i \<and> i \<in> dom (blocks (final r)))) \<and>
         (distinct (map (new_id g) [0..<uuids (final r)]) \<longrightarrow>
            blocks (final r) ?hat =
              Some \<lparr>opcode = ''event_whenflagclicked'', inputs = [],
                    fields_obj = [],
                    next_id = (if truthy_id (first_id c) then first_id c else None),
                    parent = None\<rparr>)"
      using 2(5) [unfolded 2(1)] 2(9) fin first synth by blast
    have sc: "scripts r = map (\<lambda>k. Some (new_id g k)) [0..<?n]" using 2(7) 1(1) by simp
    have "\<exists>r0. lower g (Program ?evs) = Inr r0 \<and> uuids (final r0) = ?n \<and>
          (if list_all is_Event body then r = r0
           else
             (\<exists>c s2 hb.
         compileStatements g body
           (snd (addBlock g ''event_whenflagclicked'' [] [] None None (final r0))) =
           Inr (c, s2) \<and>
         blocks s2 ?hat = Some hb \<and>
         final r =
           (if truthy_id (first_id c)
            then s2\<lparr>blocks := (blocks s2)(?hat \<mapsto> hb\<lparr>next_id := first_id c\<rparr>)\<rparr>
            else s2) \<and>
         (truthy_id (first_id c) \<longrightarrow>
            (\<exists>i. first_id c = Some i \<and> i \<in> dom (blocks (final r)))) \<and>
         (distinct (map (new_id g) [0..<uuids (final r)]) \<longrightarrow>
            blocks (final r) ?hat =
              Some \<lparr>opcode = ''event_whenflagclicked'', inputs = [],
                    fields_obj = [],
                    next_id = (if truthy_id (first_id c) then first_id c else None),
                    parent = None\<rparr>)))"
      using l0 1(2) nall ex by (intro exI [of _ r0]) (simp only: if_False simp_thms)
    then show ?thesis
      using nall sc 2(8) hats
      unfolding Inr sum.case Let_def by (simp only: if_False simp_thms) blast
  qed
qed

theorem top_level_lowering_witness:
  "(case lower sample_uuid
           (Program [Event Start, Event Click, Call (Str ''move'') [Num (num 10)] Undefined]) of
      Inl e \<Rightarrow> False
    | Inr r \<Rightarrow>
        distinct (map (new_id sample_uuid) [0..<uuids (final r)]) \<and>
        scripts r = [Some (new_id sample_uuid 0), Some (new_id sample_uuid 1)] \<and>
        startHat r = Some (new_id sample_uuid 2) \<and>
        (\<exists>b. blocks (final r) (new_id sample_uuid 0) = Some b \<and> isolated_hat b) \<and>
        (\<exists>b. blocks (final r) (new_id sample_uuid 1) = Some b \<and> isolated_hat b) \<and>
        blocks (final r) (new_id sample_uuid 2) =
          Some \<lparr>opcode = ''event_whenflagclicked'', inputs = [], fields_obj = [],
                next_id = Some (new_id sample_uuid 3), parent = None\<rparr> \<and>
        new_id sample_uuid 3 \<in> dom (blocks (final r)))"
proof -
  let ?body = "[Event Start, Event Click, Call (Str ''move'') [Num (num 10)] Undefined]"
  let ?evs = "[Event Start, Event Click]"
  have d: "(case lower sample_uuid (Program ?body) of
      Inl e \<Rightarrow> False
    | Inr r \<Rightarrow> distinct (map (new_id sample_uuid) [0..<uuids (final r)]))"
    by code_simp
  have fc: "(case lower sample_uuid (Program ?evs) of
      Inl e \<Rightarrow> False
    | Inr r0 \<Rightarrow>
        (case compileStatements sample_uuid ?body
           (snd (addBlock sample_uuid ''event_whenflagclicked'' [] [] None None (final r0))) of
           Inl e \<Rightarrow> False
         | Inr (c, s2) \<Rightarrow> first_id c = Some (new_id sample_uuid 3)))"
    by code_simp
  have n: "takeWhile is_Event ?body = ?evs" "length ?evs = 2" "\<not> list_all is_Event ?body"
    by (simp_all add: is_Event_def)
  have u: "[0..<2] = [0, Suc 0]" by (simp add: upt_rec)
  obtain r where r: "lower sample_uuid (Program ?body) = Inr r"
    and dr: "distinct (map (new_id sample_uuid) [0..<uuids (final r)])"
    using d by (cases "lower sample_uuid (Program ?body)") simp_all
  have t: "scripts r = map (\<lambda>k. Some (new_id sample_uuid k)) [0..<2] \<and>
      startHat r = Some (new_id sample_uuid 2) \<and>
      (\<forall>k<2. \<exists>b. blocks (final r) (new_id sample_uuid k) = Some b \<and> isolated_hat b) \<and>
      (\<exists>r0. lower sample_uuid (Program ?evs) = Inr r0 \<and>
         (\<exists>c s2.
            compileStatements sample_uuid ?body
              (snd (addBlock sample_uuid ''event_whenflagclicked'' [] [] None None (final r0))) =
              Inr (c, s2) \<and>
            (truthy_id (first_id c) \<longrightarrow>
               (\<exists>i. first_id c = Some i \<and> i \<in> dom (blocks (final r)))) \<and>
            blocks (final r) (new_id sample_uuid 2) =
              Some \<lparr>opcode = ''event_whenflagclicked'', inputs = [], fields_obj = [],
                    next_id = (if truthy_id (first_id c) then first_id c else None),
                    parent = None\<rparr>))"
    using top_level_lowering [where g = sample_uuid and body = ?body] dr
    by (simp only: r sum.case n Let_def if_False simp_thms; blast)
  then obtain r0 c s2 where l0: "lower sample_uuid (Program ?evs) = Inr r0"
    and cs: "compileStatements sample_uuid ?body
              (snd (addBlock sample_uuid ''event_whenflagclicked'' [] [] None None (final r0))) =
              Inr (c, s2)"
    and fi: "truthy_id (first_id c) \<longrightarrow>
               (\<exists>i. first_id c = Some i \<and> i \<in> dom (blocks (final r)))"
    and hb: "blocks (final r) (new_id sample_uuid 2) =
              Some \<lparr>opcode = ''event_whenflagclicked'', inputs = [], fields_obj = [],
                    next_id = (if truthy_id (first_id c) then first_id c else None),
                    parent = None\<rparr>"
    by blast
  have f: "first_id c = Some (new_id sample_uuid 3)"
    using fc by (simp only: l0 cs sum.case prod.case)
  have ne: "new_id sample_uuid 3 \<noteq> []" by code_simp
  have tr: "truthy_id (first_id c)" using ne by (simp add: f truthy_id_def)
  from t have t1: "scripts r = map (\<lambda>k. Some (new_id sample_uuid k)) [0..<2]"
    and t2: "startHat r = Some (new_id sample_uuid 2)"
    and t3: "\<forall>k<2. \<exists>b. blocks (final r) (new_id sample_uuid k) = Some b \<and> isolated_hat b"
    by blast+
  have s: "scripts r = [Some (new_id sample_uuid 0), Some (new_id sample_uuid 1)]"
    using t1 by (simp add: u)
  have h0: "\<exists>b. blocks (final r) (new_id sample_uuid 0) = Some b \<and> isolated_hat b"
    and h1: "\<exists>b. blocks (final r) (new_id sample_uuid 1) = Some b \<and> isolated_hat b"
    using t3 by simp_all
  have hat: "blocks (final r) (new_id sample_uuid 2) =
          Some \<lparr>opcode = ''event_whenflagclicked'', inputs = [], fields_obj = [],
                next_id = Some (new_id sample_uuid 3), parent = None\<rparr>"
    using hb tr by (simp only: f if_True)
  have dm: "new_id sample_uuid 3 \<in> dom (blocks (final r))"
    using fi tr by (simp add: f)
  show ?thesis using dr s t2 h0 h1 hat dm by (simp only: r sum.case simp_thms)
qed

subsection \<open>Lowering the example \<^verbatim>\<open>Repeat\<close>\<close>

text \<open>
  Claim C7. Lowering \<open>Repeat 5 [move(10), turn("right", 15)]\<close> gives a
  \<open>control_repeat\<close> block whose SUBSTACK is the id of a \<open>motion_movesteps\<close> block with
  STEPS = 10, whose \<^verbatim>\<open>next\<close> is the id of a \<open>motion_turnright\<close> block with DEGREES = 15;
  the parent of the \<open>motion_movesteps\<close> block is the repeat block, whose own parent
  is none. The blocks of the body are created before the container (the order in
  \<open>created\<close>), and with an empty body the container has SUBSTACK \<^verbatim>\<open>null\<close> and no
  block gets a parent. The ids are the truncated UUIDs of the second, third and
  fourth call of \<^verbatim>\<open>uuidv4\<close> (the first, for \<^verbatim>\<open>repId\<close>, is not used); the three are
  taken to be non-empty and pairwise distinct, as random UUIDs are.
\<close>

theorem repeat_example_lowering:
  assumes "i1 = new_id g (Suc (uuids s))" "i2 = new_id g (Suc (Suc (uuids s)))"
    "i3 = new_id g (Suc (Suc (Suc (uuids s))))"
    "i1 \<noteq> []" "i2 \<noteq> []" "i1 \<noteq> i2" "i1 \<noteq> i3" "i2 \<noteq> i3"
  shows
  "(case compileStatement g
           (Repeat (Num (num 5))
              [Call (Str ''move'') [Num (num 10)] Undefined,
               Call (Str ''turn'') [Str ''right'', Num (num 15)] Undefined]) s of
      Inl e \<Rightarrow> False
    | Inr (r, s') \<Rightarrow>
        r = Some i3 \<and>
        blocks s' i3 = Some
          \<lparr>opcode = ''control_repeat'',
           inputs = [(''TIMES'', Arr [Num (num 1), Arr [Num (num 4), Num (num 5)]]),
                     (''SUBSTACK'', Arr [Num (num 2), Str i1])],
           fields_obj = [], next_id = None, parent = None\<rparr> \<and>
        blocks s' i1 = Some
          \<lparr>opcode = ''motion_movesteps'',
           inputs = [(''STEPS'', Arr [Num (num 1), Arr [Num (num 4), Num (num 10)]])],
           fields_obj = [], next_id = Some i2, parent = Some i3\<rparr> \<and>
        blocks s' i2 = Some
          \<lparr>opcode = ''motion_turnright'',
           inputs = [(''DEGREES'', Arr [Num (num 1), Arr [Num (num 4), Num (num 15)]])],
           fields_obj = [], next_id = None, parent = None\<rparr> \<and>
        created s' = created s @ [i1, i2, i3]) \<and>
   compileStatement g (Repeat count []) s =
     Inr (Some i1,
          s\<lparr>uuids := Suc (Suc (uuids s)), created := created s @ [i1],
            blocks := (blocks s)(i1 \<mapsto>
              \<lparr>opcode = ''control_repeat'',
               inputs = [(''TIMES'', Arr [Num (num 1), Arr [Num (num 4), count]]),
                         (''SUBSTACK'', Arr [Num (num 2), Null])],
               fields_obj = [], next_id = None, parent = None\<rparr>)\<rparr>)"
  using assms
  by (simp add: Let_def compileCall_def addBlock_def link_def set_next_def set_parent_def
      container_def index_def or_js_def shadow4_def ref_def truthy_id_def)

theorem repeat_example_lowering_witness:
  "''00000001000040008000'' = new_id sample_uuid (Suc (uuids init_state)) \<and>
   ''00000002000040008000'' = new_id sample_uuid (Suc (Suc (uuids init_state))) \<and>
   ''00000003000040008000'' = new_id sample_uuid (Suc (Suc (Suc (uuids init_state)))) \<and>
   (case compileStatement sample_uuid
           (Repeat (Num (num 5))
              [Call (Str ''move'') [Num (num 10)] Undefined,
               Call (Str ''turn'') [Str ''right'', Num (num 15)] Undefined]) init_state of
      Inl e \<Rightarrow> False
    | Inr (r, s') \<Rightarrow>
        r = Some ''00000003000040008000'' \<and>
        blocks s' ''00000003000040008000'' = Some
          \<lparr>opcode = ''control_repeat'',
           inputs = [(''TIMES'', Arr [Num (num 1), Arr [Num (num 4), Num (num 5)]]),
                     (''SUBSTACK'', Arr [Num (num 2), Str ''00000001000040008000''])],
           fields_obj = [], next_id = None, parent = None\<rparr> \<and>
        blocks s' ''00000001000040008000'' = Some
          \<lparr>opcode = ''motion_movesteps'',
           inputs = [(''STEPS'', Arr [Num (num 1), Arr [Num (num 4), Num (num 10)]])],
           fields_obj = [], next_id = Some ''00000002000040008000'',
           parent = Some ''00000003000040008000''\<rparr> \<and>
        blocks s' ''00000002000040008000'' = Some
          \<lparr>opcode = ''motion_turnright'',
           inputs = [(''DEGREES'', Arr [Num (num 1), Arr [Num (num 4), Num (num 15)]])],
           fields_obj = [], next_id = None, parent = None\<rparr> \<and>
        created s' = [''00000001000040008000'', ''00000002000040008000'',
                      ''00000003000040008000''])"
proof -
  have i: "''00000001000040008000'' = new_id sample_uuid (Suc (uuids init_state))"
    "''00000002000040008000'' = new_id sample_uuid (Suc (Suc (uuids init_state)))"
    "''00000003000040008000'' = new_id sample_uuid (Suc (Suc (Suc (uuids init_state))))"
    by (simp_all add: init_state_def) code_simp+
  have n: "''00000001000040008000'' \<noteq> []" "''00000002000040008000'' \<noteq> []"
    "''00000001000040008000'' \<noteq> ''00000002000040008000''"
    "''00000001000040008000'' \<noteq> ''00000003000040008000''"
    "''00000002000040008000'' \<noteq> ''00000003000040008000''"
    by simp_all
  have c: "created init_state = []" by (simp add: init_state_def)
  note t = repeat_example_lowering [OF i n, of "Num (num 5)", THEN conjunct1]
  show ?thesis
    using i t by (simp only: c append_Nil simp_thms)
qed

end
